theory Spec2Isabelle
  imports Main "HOL-Library.Sublist" "HOL-Library.Multiset" "HOL-Library.AList"
    "HOL-Library.Char_ord" "HOL-Library.List_Lexorder" "HOL-Library.Product_Lexorder"
begin

section \<open>Buffer layout planner: \<^verbatim>\<open>brainstorm/structure/layout.py\<close>\<close>

text \<open>
  A shallow embedding of the layout planner. Python exceptions are values of type
  \<open>error\<close>; a function that can raise returns \<open>error + 'a\<close> with \<open>Inl\<close> the exception.
  Python sets are HOL sets; where the source iterates over a set, the iteration order is
  an explicit parameter \<open>it\<close> of the model (an enumeration of the set).
\<close>

subsection \<open>Errors and sequencing\<close>

datatype error = NetworkValidationError | AssertionError | ValueError | IndexError
  | KeyError | TypeError | AttributeError

definition ebind :: "error + 'a \<Rightarrow> ('a \<Rightarrow> error + 'b) \<Rightarrow> error + 'b" where
  "ebind m f = (case m of Inl e \<Rightarrow> Inl e | Inr x \<Rightarrow> f x)"

fun emap :: "('a \<Rightarrow> error + 'b) \<Rightarrow> 'a list \<Rightarrow> error + 'b list" where
  "emap f [] = Inr []"
| "emap f (x # xs) = ebind (f x) (\<lambda>y. ebind (emap f xs) (\<lambda>ys. Inr (y # ys)))"

subsection \<open>Nested containers of endpoints\<close>

text \<open>
  A source of a hub is a single endpoint path or a forced-order tuple of paths. The same
  shape holds row indices: a single index or a tuple of indices.
\<close>

datatype 'a nested = is_Single: Single (un_Single: 'a) | is_Tuple: Tuple (un_Tuple: "'a list")

type_synonym node = "string nested"

text \<open>
  Modelled from the spec: \<^verbatim>\<open>brainstorm.utils.flatten\<close> is not part of the sources at hand.
  The spec: sources are expanded into flat leaf endpoints, forced-order groups expand to their
  members, in declared order.
\<close>

fun flatten :: "'a nested list \<Rightarrow> 'a list" where
  "flatten [] = []"
| "flatten (Single x # rest) = x # flatten rest"
| "flatten (Tuple xs # rest) = xs @ flatten rest"

text \<open>
  Modelled from the spec: \<^verbatim>\<open>brainstorm.utils.convert_to_nested_indices\<close> is not part of
  the sources at hand. The spec: the top-level units are atomic forced-order groups or single
  endpoints, each unit expanding internally in its fixed order; the indices are the row numbers
  of the flat expansion.
\<close>

fun nested_indices_from :: "nat \<Rightarrow> 'a nested list \<Rightarrow> nat nested list" where
  "nested_indices_from k [] = []"
| "nested_indices_from k (Single x # rest) = Single k # nested_indices_from (Suc k) rest"
| "nested_indices_from k (Tuple xs # rest) =
     Tuple [k..<k + length xs] # nested_indices_from (k + length xs) rest"

definition convert_to_nested_indices :: "'a nested list \<Rightarrow> nat nested list" where
  "convert_to_nested_indices container = nested_indices_from 0 container"

text \<open>
  \<^verbatim>\<open>itertools.permutations\<close>: all orderings of a list, in lexicographic order of the
  positions taken.
\<close>

fun permutations :: "'a list \<Rightarrow> 'a list list" where
  "permutations [] = [[]]"
| "permutations (v # va) =
     concat (map (\<lambda>i. map ((#) ((v # va) ! i))
                          (permutations (take i (v # va) @ drop (Suc i) (v # va))))
                 [0..<length (v # va)])"

text \<open>\<^verbatim>\<open>list.index\<close>: the first position of a value; \<open>None\<close> stands for ValueError.\<close>

fun index_of :: "'a list \<Rightarrow> 'a \<Rightarrow> nat option" where
  "index_of [] y = None"
| "index_of (x # xs) y = (if x = y then Some 0 else map_option Suc (index_of xs y))"

subsection \<open>Connection tables\<close>

text \<open>
  A two-dimensional numpy array of zeros and ones: the number of columns and the list of
  rows. The entries are the floats 0.0 and 1.0 in the source; differences, absolute values and
  sums of these are exact, so they are integers here.
\<close>

record table =
  ncols :: nat
  rows :: "int list list"

definition np_zeros :: "nat \<Rightarrow> nat \<Rightarrow> table" where
  "np_zeros r c = \<lparr>ncols = c, rows = replicate r (replicate c 0)\<rparr>"

definition column :: "table \<Rightarrow> nat \<Rightarrow> int list" where
  "column t j = map (\<lambda>r. r ! j) (rows t)"

definition set_entry :: "table \<Rightarrow> nat \<Rightarrow> nat \<Rightarrow> table" where
  "set_entry t i j = t\<lparr>rows := (rows t)[i := (rows t ! i)[j := 1]]\<rparr>"

text \<open>\<^verbatim>\<open>table[perm]\<close>: the rows at the listed positions; a position out of range raises.\<close>

definition take_rows :: "table \<Rightarrow> nat list \<Rightarrow> error + table" where
  "take_rows t perm =
     (if list_all (\<lambda>i. i < length (rows t)) perm
      then Inr (t\<lparr>rows := map (\<lambda>i. rows t ! i) perm\<rparr>)
      else Inl IndexError)"

text \<open>\<^verbatim>\<open>np.diff(p, axis=0)\<close>: each row minus the row above it.\<close>

definition np_diff :: "int list list \<Rightarrow> int list list" where
  "np_diff p = map2 (\<lambda>hi lo. map2 (-) hi lo) (tl p) p"

text \<open>\<^verbatim>\<open>m.sum(axis=0)\<close> for a matrix of \<open>c\<close> columns: the sums of the columns.\<close>

definition sum_axis0 :: "nat \<Rightarrow> int list list \<Rightarrow> int list" where
  "sum_axis0 c m = foldr (map2 (+)) m (replicate c 0)"

definition can_be_connected_with_single_buffer :: "table \<Rightarrow> bool" where
  "can_be_connected_with_single_buffer connection_table =
     (let zero = replicate (ncols connection_table) 0;
          padded = zero # rows connection_table @ [zero]
      in list_all (\<lambda>s. s \<le> 2)
           (sum_axis0 (ncols connection_table) (map (map abs) (np_diff padded))))"

text \<open>Every row has as many entries as the table has columns; every entry is 0 or 1.\<close>

definition wf_table :: "table \<Rightarrow> bool" where
  "wf_table t = list_all (\<lambda>r. length r = ncols t) (rows t)"

definition zero_one :: "table \<Rightarrow> bool" where
  "zero_one t = list_all (list_all (\<lambda>x. x = 0 \<or> x = 1)) (rows t)"

text \<open>
  The contiguity predicate in the words of the spec. \<open>ones_single_run\<close>: the ones of a
  column are exactly the rows of one interval \<open>[a, b)\<close>, which may be empty and may touch
  either end. \<open>changes\<close>: the column padded with one zero above and below, and the number
  of places where neighbours differ.
\<close>

definition ones_single_run :: "int list \<Rightarrow> bool" where
  "ones_single_run col =
     list_ex (\<lambda>a. list_ex (\<lambda>b.
        list_all (\<lambda>i. (col ! i = 1) = (a \<le> i \<and> i < b)) [0..<length col])
       [0..<Suc (length col)]) [0..<Suc (length col)]"

definition changes :: "int list \<Rightarrow> int" where
  "changes col = sum_list (map abs (map2 (-) (tl (0 # col @ [0])) (0 # col @ [0])))"

text \<open>Proof devices for a single column: the changes seen from a previous value, and the
  two states of a scan for a single run.\<close>

fun tv :: "int \<Rightarrow> int list \<Rightarrow> int" where
  "tv p [] = abs (0 - p)"
| "tv p (x # xs) = abs (x - p) + tv x xs"

fun run1 :: "int list \<Rightarrow> bool" where
  "run1 [] = True"
| "run1 (x # xs) = (if x = 1 then run1 xs else list_all (\<lambda>y. y = 0) xs)"

fun run0 :: "int list \<Rightarrow> bool" where
  "run0 [] = True"
| "run0 (x # xs) = (if x = 0 then run0 xs else run1 xs)"

subsection \<open>The layout tree\<close>

text \<open>
  Modelled from the spec: the shape templates of \<^verbatim>\<open>brainstorm.structure.shapes\<close> are not
  part of the sources at hand. The spec: an opaque value that gives an element count
  (\<^verbatim>\<open>get_feature_size\<close>), a buffer type tag from a totally ordered type
  (\<^verbatim>\<open>validate_shape_template\<close>) and a plain attribute mapping (\<^verbatim>\<open>to_json\<close>),
  which may hold a context size.
\<close>

record shape_template =
  feature_size :: int
  buffer_type :: int
  context_opt :: "int option"

text \<open>
  The layout is the nested dictionary of the source, kept as it is: a dictionary is an
  association list in insertion order, and a value is a string, an integer, a slice, a tuple of
  integers, a shape or a dictionary.
\<close>

datatype json = JStr string | JInt int | JSlice int int | JTuple "int list"
  | JShape shape_template | JDict "(string \<times> json) list"

definition to_json :: "shape_template \<Rightarrow> (string \<times> json) list" where
  "to_json st = (''@shape'', JShape st) #
     (case context_opt st of None \<Rightarrow> [] | Some c \<Rightarrow> [(''@context_size'', JInt c)])"

text \<open>\<^verbatim>\<open>str.split(sep)\<close> for a separator of one character.\<close>

fun split_on :: "char \<Rightarrow> string \<Rightarrow> string list" where
  "split_on c [] = [[]]"
| "split_on c (x # xs) =
     (if x = c then [] # split_on c xs
      else (case split_on c xs of [] \<Rightarrow> [[x]] | r # rs \<Rightarrow> (x # r) # rs))"

fun walk_path :: "string list \<Rightarrow> json \<Rightarrow> error + json" where
  "walk_path [] current_node = Inr current_node"
| "walk_path (p # ps) current_node =
     (case current_node of
        JDict d \<Rightarrow> (case map_of d p of None \<Rightarrow> Inl KeyError | Some v \<Rightarrow> walk_path ps v)
      | _ \<Rightarrow> Inl TypeError)"

definition get_by_path :: "string \<Rightarrow> json \<Rightarrow> error + json" where
  "get_by_path path layout = walk_path (split_on CHR ''.'' path) layout"

text \<open>\<^verbatim>\<open>get_by_path(s, layout)\<close> for a source \<open>s\<close>: a tuple has no \<^verbatim>\<open>split\<close>.\<close>

definition get_node :: "node \<Rightarrow> json \<Rightarrow> error + json" where
  "get_node s layout = (case s of Single path \<Rightarrow> get_by_path path layout
                               | Tuple ps \<Rightarrow> Inl AttributeError)"

text \<open>\<^verbatim>\<open>get_by_path(s, layout)['@shape']\<close>\<close>

definition shape_of :: "string \<Rightarrow> json \<Rightarrow> error + shape_template" where
  "shape_of s layout = ebind (get_by_path s layout) (\<lambda>n.
     case n of
       JDict d \<Rightarrow> (case map_of d ''@shape'' of
                     None \<Rightarrow> Inl KeyError
                   | Some (JShape st) \<Rightarrow> Inr st
                   | Some _ \<Rightarrow> Inl TypeError)
     | _ \<Rightarrow> Inl TypeError)"

text \<open>\<^verbatim>\<open>get_by_path(s, layout).get('@context_size', 0)\<close>\<close>

definition context_size_of :: "string \<Rightarrow> json \<Rightarrow> error + int" where
  "context_size_of s layout = ebind (get_by_path s layout) (\<lambda>n.
     case n of
       JDict d \<Rightarrow> (case map_of d ''@context_size'' of
                     None \<Rightarrow> Inr 0
                   | Some (JInt c) \<Rightarrow> Inr c
                   | Some _ \<Rightarrow> Inl TypeError)
     | _ \<Rightarrow> Inl AttributeError)"

subsection \<open>Hubs\<close>

record hub =
  sources :: "node list"
  sinks :: "node list"
  btype :: int
  context_size :: int
  connection_table :: "table option"
  sizes :: "int list"
  size_hub :: int

text \<open>
  \<^verbatim>\<open>Hub.__init__\<close>. The connection table starts as an empty Python list, which is no
  array: it is \<open>None\<close> here until \<^verbatim>\<open>set_up_connection_table\<close> stores an array, and
  indexing it as an array raises TypeError.
\<close>

definition Hub :: "node list \<Rightarrow> node list \<Rightarrow> int \<Rightarrow> int \<Rightarrow> hub" where
  "Hub srcs snks bt cs = \<lparr>sources = srcs, sinks = snks, btype = bt, context_size = cs,
     connection_table = None, sizes = [], size_hub = - 1\<rparr>"

text \<open>
  The loop of \<^verbatim>\<open>set_up_connection_table\<close>. The membership tests are made on the sources
  as the hub holds them (single paths and forced-order tuples) and on the sinks; the row is
  then looked up in the flat sources.
\<close>

fun fill_table :: "node list \<Rightarrow> string list \<Rightarrow> node list \<Rightarrow> (string \<times> string) list
    \<Rightarrow> table \<Rightarrow> error + table" where
  "fill_table srcs flat_sources snks [] t = Inr t"
| "fill_table srcs flat_sources snks ((start, stop) # connections) t =
     (if Single start \<in> set srcs \<and> Single stop \<in> set snks then
        (case index_of flat_sources start of
           None \<Rightarrow> Inl ValueError
         | Some start_idx \<Rightarrow>
            (case index_of snks (Single stop) of
               None \<Rightarrow> Inl ValueError
             | Some stop_idx \<Rightarrow>
                 fill_table srcs flat_sources snks connections (set_entry t start_idx stop_idx)))
      else fill_table srcs flat_sources snks connections t)"

definition set_up_connection_table :: "hub \<Rightarrow> (string \<times> string) list \<Rightarrow> error + hub" where
  "set_up_connection_table h connections =
     (let flat_sources = flatten (sources h) in
      ebind (fill_table (sources h) flat_sources (sinks h) connections
               (np_zeros (length flat_sources) (length (sinks h))))
        (\<lambda>t. Inr (h\<lparr>connection_table := Some t\<rparr>)))"

text \<open>The loop of \<^verbatim>\<open>permute_rows\<close> over the permutations of the units.\<close>

fun try_permutations :: "hub \<Rightarrow> string list \<Rightarrow> nat nested list list \<Rightarrow> error + hub" where
  "try_permutations h flat_sources [] = Inl NetworkValidationError"
| "try_permutations h flat_sources (perm # perms) =
     (let perm' = flatten perm in
      case connection_table h of
        None \<Rightarrow> Inl TypeError
      | Some t \<Rightarrow>
          (case take_rows t perm' of
             Inl e \<Rightarrow> Inl e
           | Inr ct \<Rightarrow>
               if can_be_connected_with_single_buffer ct
               then Inr (h\<lparr>connection_table := Some ct,
                           sources := map (\<lambda>i. Single (flat_sources ! i)) perm'\<rparr>)
               else try_permutations h flat_sources perms))"

definition permute_rows :: "hub \<Rightarrow> error + hub" where
  "permute_rows h =
     (let flat_sources = flatten (sources h);
          nested_indices = convert_to_nested_indices (sources h)
      in try_permutations h flat_sources (permutations nested_indices))"

text \<open>\<^verbatim>\<open>Hub.setup\<close>\<close>

definition hub_setup :: "hub \<Rightarrow> (string \<times> string) list \<Rightarrow> error + hub" where
  "hub_setup h connections = ebind (set_up_connection_table h connections) permute_rows"

text \<open>
  \<^verbatim>\<open>np.cumsum\<close> of a list of Python integers: numpy holds the entries and the running sums
  as signed 64-bit integers, and a sum that leaves the range wraps around silently. (The sizes
  themselves, and \<^verbatim>\<open>sum(hub.sizes)\<close>, are Python integers without a bound.)
\<close>

definition int64 :: "int \<Rightarrow> int" where
  "int64 x = (x + 2 ^ 63) mod 2 ^ 64 - 2 ^ 63"

fun cumsum_from :: "int \<Rightarrow> int list \<Rightarrow> int list" where
  "cumsum_from acc [] = []"
| "cumsum_from acc (x # xs) = int64 (acc + x) # cumsum_from (int64 (acc + x)) xs"

definition cumsum :: "int list \<Rightarrow> int list" where
  "cumsum xs = cumsum_from 0 xs"

text \<open>\<^verbatim>\<open>np.argmax\<close>: the first position of the maximum; it raises on an empty array.\<close>

fun argmax_from :: "nat \<Rightarrow> int \<Rightarrow> nat \<Rightarrow> int list \<Rightarrow> nat" where
  "argmax_from best bv i [] = best"
| "argmax_from best bv i (x # xs) =
     (if bv < x then argmax_from i x (Suc i) xs else argmax_from best bv (Suc i) xs)"

definition argmax :: "int list \<Rightarrow> error + nat" where
  "argmax xs = (case xs of [] \<Rightarrow> Inl ValueError | x # rest \<Rightarrow> Inr (argmax_from 0 x 1 rest))"

text \<open>\<^verbatim>\<open>idxs[k]\<close> for a position that is not negative.\<close>

definition at_index :: "int list \<Rightarrow> nat \<Rightarrow> error + int" where
  "at_index idxs k = (if k < length idxs then Inr (idxs ! k) else Inl IndexError)"

text \<open>\<^verbatim>\<open>self.connection_table[:, i]\<close>\<close>

definition column_of :: "table option \<Rightarrow> nat \<Rightarrow> error + int list" where
  "column_of ct i =
     (case ct of
        None \<Rightarrow> Inl TypeError
      | Some t \<Rightarrow> if i < ncols t then Inr (column t i) else Inl IndexError)"

text \<open>\<^verbatim>\<open>self.connection_table.shape[0]\<close>\<close>

definition shape0 :: "table option \<Rightarrow> error + nat" where
  "shape0 ct = (case ct of None \<Rightarrow> Inl AttributeError | Some t \<Rightarrow> Inr (length (rows t)))"

text \<open>The two loops of \<^verbatim>\<open>get_indices\<close>, and the generator as the list of what it yields.\<close>

definition source_indices :: "hub \<Rightarrow> (node \<times> int \<times> int) list" where
  "source_indices h =
     (let idxs = cumsum (0 # sizes h)
      in map (\<lambda>(source_name, start, stop). (source_name, (start, stop)))
           (zip (sources h) (zip idxs (tl idxs))))"

definition sink_index :: "hub \<Rightarrow> nat \<Rightarrow> node \<Rightarrow> error + (node \<times> int \<times> int)" where
  "sink_index h i sink_name =
     (let idxs = cumsum (0 # sizes h) in
      ebind (column_of (connection_table h) i) (\<lambda>col.
      ebind (argmax col) (\<lambda>first.
      ebind (at_index idxs first) (\<lambda>start.
      ebind (shape0 (connection_table h)) (\<lambda>n.
      ebind (argmax (rev col)) (\<lambda>last.
      ebind (at_index idxs (n - last)) (\<lambda>stop.
      Inr (sink_name, (start, stop)))))))))"

definition sink_indices :: "hub \<Rightarrow> error + (node \<times> int \<times> int) list" where
  "sink_indices h = emap (\<lambda>(i, sink_name). sink_index h i sink_name)
                      (zip [0..<length (sinks h)] (sinks h))"

definition get_indices :: "hub \<Rightarrow> error + (node \<times> int \<times> int) list" where
  "get_indices h = ebind (sink_indices h) (\<lambda>snk. Inr (source_indices h @ snk))"

text \<open>
  \<^verbatim>\<open>sorted\<close> on a set of sources or sinks: paths are compared as strings, tuples of paths
  as tuples; a string and a tuple are not comparable.
\<close>

definition sorted_nodes :: "node set \<Rightarrow> error + node list" where
  "sorted_nodes s =
     (if \<forall>n\<in>s. is_Single n then Inr (map Single (sorted_list_of_set (un_Single ` s)))
      else if \<forall>n\<in>s. is_Tuple n then Inr (map Tuple (sorted_list_of_set (un_Tuple ` s)))
      else Inl TypeError)"

text \<open>\<^verbatim>\<open>min\<close> and \<^verbatim>\<open>max\<close> of a list raise on the empty list.\<close>

definition list_min :: "int list \<Rightarrow> error + int" where
  "list_min xs = (case xs of [] \<Rightarrow> Inl ValueError | x # rest \<Rightarrow> Inr (fold min rest x))"

definition list_max :: "int list \<Rightarrow> error + int" where
  "list_max xs = (case xs of [] \<Rightarrow> Inl ValueError | x # rest \<Rightarrow> Inr (fold max rest x))"

text \<open>
  \<^verbatim>\<open>Hub.create\<close>. The parameter \<open>it\<close> gives the order in which the source set is
  iterated.
\<close>

text \<open>\<^verbatim>\<open>get_feature_size(get_by_path(s, layout)['@shape'])\<close> for a source of the hub.\<close>

definition size_of :: "node \<Rightarrow> json \<Rightarrow> error + int" where
  "size_of s layout = ebind (get_node s layout) (\<lambda>n.
     case n of
       JDict d \<Rightarrow> (case map_of d ''@shape'' of
                     None \<Rightarrow> Inl KeyError
                   | Some (JShape st) \<Rightarrow> Inr (feature_size st)
                   | Some _ \<Rightarrow> Inl TypeError)
     | _ \<Rightarrow> Inl TypeError)"

text \<open>\<^verbatim>\<open>validate_shape_template(get_by_path(s, layout)['@shape'])\<close>\<close>

definition btype_of :: "string \<Rightarrow> json \<Rightarrow> error + int" where
  "btype_of s layout = ebind (shape_of s layout) (\<lambda>st. Inr (buffer_type st))"

definition Hub_create :: "(node set \<Rightarrow> node list) \<Rightarrow> node set \<Rightarrow> node set \<Rightarrow> json
    \<Rightarrow> (string \<times> string) list \<Rightarrow> error + hub" where
  "Hub_create it source_set sink_set layout connections =
     ebind (emap (\<lambda>s. btype_of s layout) (flatten (it source_set))) (\<lambda>btypes.
     ebind (list_min btypes) (\<lambda>lo.
     ebind (list_max btypes) (\<lambda>hi.
     if lo \<noteq> hi then Inl AssertionError else
     ebind (emap (\<lambda>s. context_size_of s layout) (flatten (it source_set))) (\<lambda>cs.
     ebind (list_max cs) (\<lambda>context_size.
     ebind (sorted_nodes source_set) (\<lambda>srcs.
     ebind (sorted_nodes sink_set) (\<lambda>snks.
     ebind (hub_setup (Hub srcs snks (hd btypes) context_size) connections) (\<lambda>h.
     ebind (emap (\<lambda>s. size_of s layout) (sources h)) (\<lambda>szs.
     Inr (h\<lparr>sizes := szs, size_hub := sum_list szs\<rparr>))))))))))"

subsection \<open>Forward closure\<close>

text \<open>
  The two set comprehensions of \<^verbatim>\<open>get_forward_closure\<close>: the ends of the connections that
  start in a set, and the starts of the connections that end in a set.
\<close>

definition targets_of :: "('a \<times> 'a) list \<Rightarrow> 'a set \<Rightarrow> 'a set" where
  "targets_of connections source_set =
     set (map snd (filter (\<lambda>(start, stop). start \<in> source_set) connections))"

definition starts_of :: "('a \<times> 'a) list \<Rightarrow> 'a set \<Rightarrow> 'a set" where
  "starts_of connections sink_set =
     set (map fst (filter (\<lambda>(start, stop). stop \<in> sink_set) connections))"

text \<open>
  The \<^verbatim>\<open>while growing\<close> loop, from its head. \<open>None\<close> stands for a loop that does
  not end.
\<close>

partial_function (option) closure_loop ::
    "('a \<times> 'a) list \<Rightarrow> 'a set \<Rightarrow> 'a set \<Rightarrow> ('a set \<times> 'a set) option" where
  "closure_loop connections source_set sink_set =
     (let new_source_set = starts_of connections sink_set;
          new_sink_set = targets_of connections source_set
      in if card new_source_set > card source_set \<or> card new_sink_set > card sink_set
         then closure_loop connections new_source_set new_sink_set
         else Some (source_set, sink_set))"

declare closure_loop.simps [code]

definition get_forward_closure :: "'a \<Rightarrow> ('a \<times> 'a) list \<Rightarrow> ('a set \<times> 'a set) option" where
  "get_forward_closure node connections =
     closure_loop connections {node} (targets_of connections {node})"

subsection \<open>Layers, connections and the layout stub\<close>

text \<open>
  Modelled from the spec: the layer objects and \<^verbatim>\<open>brainstorm.utils.get_normalized_path\<close>
  and \<^verbatim>\<open>sort_by_index_key\<close> are not part of the sources at hand. The spec: a layer
  exposes its outgoing connections (start layer, output name, end layer, input name), an ordered
  parameter structure, an ordered internal structure, and its input and output shapes; the
  registry is an ordered mapping from names to layers; layer and port pairs are normalized into
  dotted paths; every child carries a declared index that fixes the order of iteration.
  A dictionary is an association list with distinct keys, in insertion order.
\<close>

record connection =
  start_layer :: string
  output_name :: string
  end_layer :: string
  input_name :: string

record layer =
  in_shapes :: "(string \<times> shape_template) list"
  out_shapes :: "(string \<times> shape_template) list"
  parameter_structure :: "(string \<times> shape_template) list"
  internal_structure :: "(string \<times> shape_template) list"
  outgoing :: "connection list"

type_synonym layers = "(string \<times> layer) list"

fun join_dot :: "string list \<Rightarrow> string" where
  "join_dot [] = []"
| "join_dot [p] = p"
| "join_dot (p # q # ps) = p @ ''.'' @ join_dot (q # ps)"

definition get_normalized_path :: "string list \<Rightarrow> string" where
  "get_normalized_path args = join_dot (filter (\<lambda>p. p \<noteq> []) args)"

definition get_parameter_order :: "string \<Rightarrow> layer \<Rightarrow> string list" where
  "get_parameter_order layer_name l =
     map (\<lambda>(name, st). get_normalized_path [layer_name, ''parameters'', name]) (parameter_structure l)"

definition get_internal_order :: "string \<Rightarrow> layer \<Rightarrow> string list" where
  "get_internal_order layer_name l =
     map (\<lambda>(name, st). get_normalized_path [layer_name, ''internals'', name]) (internal_structure l)"

definition overlap :: "string list list \<Rightarrow> bool" where
  "overlap forced_orders =
     list_ex (\<lambda>i. list_ex (\<lambda>j. i \<noteq> j \<and>
                 set (forced_orders ! i) \<inter> set (forced_orders ! j) \<noteq> {})
               [0..<length forced_orders]) [0..<length forced_orders]"

definition get_forced_orders :: "layers \<Rightarrow> error + string list list" where
  "get_forced_orders ls =
     (let forced_orders = filter (\<lambda>fo. fo \<noteq> [])
            (map (\<lambda>(n, l). get_parameter_order n l) ls @
             map (\<lambda>(n, l). get_internal_order n l) ls)
      in if overlap forced_orders then Inl AssertionError else Inr forced_orders)"

definition get_connections :: "layers \<Rightarrow> (string \<times> string) list" where
  "get_connections ls =
     sort (concat (map (\<lambda>(layer_name, l).
                     map (\<lambda>con. (get_normalized_path [start_layer con, ''outputs'', output_name con],
                                 get_normalized_path [end_layer con, ''inputs'', input_name con]))
                         (outgoing l)) ls) @
           concat (map (\<lambda>(layer_name, l).
                     map (\<lambda>(param_name, st).
                            (get_normalized_path [layer_name, ''parameters'', param_name],
                             ''parameters''))
                         (parameter_structure l)) ls))"

definition convert_to_array_json :: "shape_template \<Rightarrow> nat \<Rightarrow> json" where
  "convert_to_array_json st i =
     JDict (AList.update ''@index'' (JInt (int i))
             (AList.update ''@type'' (JStr ''array'') (to_json st)))"

text \<open>A dictionary comprehension over the enumerated keys.\<close>

definition array_dict :: "(string \<times> shape_template) list \<Rightarrow> string list \<Rightarrow> (string \<times> json) list" where
  "array_dict shapes keys =
     fold (\<lambda>(i, k, st) d. AList.update k (convert_to_array_json st i) d)
          (zip [0..<length keys]
               (List.map_filter (\<lambda>k. map_option (Pair k) (map_of shapes k)) keys)) []"

definition buffer_view :: "(string \<times> json) list \<Rightarrow> nat \<Rightarrow> json" where
  "buffer_view d i =
     JDict (AList.update ''@index'' (JInt (int i)) (AList.update ''@type'' (JStr ''BufferView'') d))"

definition get_layout_stub_for_layer :: "layer \<Rightarrow> (string \<times> json) list" where
  "get_layout_stub_for_layer l =
     [(''inputs'', buffer_view (array_dict (in_shapes l) (sort (map fst (in_shapes l)))) 0),
      (''outputs'', buffer_view (array_dict (out_shapes l) (sort (map fst (out_shapes l)))) 1),
      (''parameters'', buffer_view (array_dict (parameter_structure l)
                                      (map fst (parameter_structure l))) 2),
      (''internals'', buffer_view (array_dict (internal_structure l)
                                     (map fst (internal_structure l))) 3)]"

definition create_layout_stub :: "layers \<Rightarrow> json" where
  "create_layout_stub ls =
     JDict (fold (\<lambda>(i, (layer_name, l)) root.
                    AList.update layer_name (buffer_view (get_layout_stub_for_layer l) i) root)
                 (zip [1..<Suc (length ls)] ls)
                 [(''@type'', JStr ''BufferView''),
                  (''parameters'', JDict [(''@type'', JStr ''array''), (''@index'', JInt 0)])])"

text \<open>\<^verbatim>\<open>gather_array_nodes\<close>: the items of a dictionary in the order of their indices, the
  keys that start with \<^verbatim>\<open>@\<close> skipped.\<close>

definition sort_by_index_key :: "string \<times> json \<Rightarrow> int" where
  "sort_by_index_key x =
     (case snd x of
        JDict d \<Rightarrow> (case map_of d ''@index'' of Some (JInt i) \<Rightarrow> i | _ \<Rightarrow> - 1)
      | _ \<Rightarrow> - 1)"

text \<open>The depth measure of a layout, for the traversal below.\<close>

fun jsize :: "json \<Rightarrow> nat" where
  "jsize (JDict d) = Suc (sum_list (map (\<lambda>kv. Suc (jsize (snd kv))) d))"
| "jsize (JStr s) = 0"
| "jsize (JInt i) = 0"
| "jsize (JSlice a b) = 0"
| "jsize (JTuple xs) = 0"
| "jsize (JShape st) = 0"

text \<open>Sorting the items of a dictionary keeps what is summed over them.\<close>

lemma sum_sorted_items:
  "sum_list (map f (sort_key g (d :: (string \<times> json) list))) = sum_list (map f d)"
  for f :: "string \<times> json \<Rightarrow> nat"
proof -
  have "mset (map f (sort_key g d)) = mset (map f d)" by simp
  then show ?thesis by (metis sum_mset_sum_list)
qed

function gather_array_nodes :: "json \<Rightarrow> error + string list"
  and gather_items :: "(string \<times> json) list \<Rightarrow> error + string list" where
  "gather_array_nodes layout =
     (case layout of
        JDict d \<Rightarrow> gather_items (sort_key sort_by_index_key d)
      | _ \<Rightarrow> Inl AttributeError)"
| "gather_items [] = Inr []"
| "gather_items ((k, v) # rest) =
     (if take 1 k = ''@'' then gather_items rest
      else (case v of
              JDict dv \<Rightarrow>
                (case map_of dv ''@type'' of
                   None \<Rightarrow> Inl KeyError
                 | Some t \<Rightarrow>
                     if t = JStr ''BufferView'' then
                       (case gather_array_nodes v of
                          Inl e \<Rightarrow> Inl e
                        | Inr subs \<Rightarrow>
                            (case gather_items rest of
                               Inl e \<Rightarrow> Inl e
                             | Inr others \<Rightarrow> Inr (map (\<lambda>sub_path. k @ ''.'' @ sub_path) subs @ others)))
                     else if t = JStr ''array'' then
                       (case gather_items rest of
                          Inl e \<Rightarrow> Inl e
                        | Inr others \<Rightarrow> Inr (k # others))
                     else gather_items rest)
            | _ \<Rightarrow> gather_items rest))"
  by pat_completeness auto

termination gather_array_nodes
  apply (relation "measure (\<lambda>x. case x of
    Inl j \<Rightarrow> 2 * jsize j
  | Inr items \<Rightarrow> 2 * sum_list (map (\<lambda>kv. Suc (jsize (snd kv))) items) + 1)")
  apply (simp_all add: sum_sorted_items)
  done

text \<open>\<^verbatim>\<open>x in fo\<close> for a connection end \<open>x\<close> that is a path, or already a tuple.\<close>

definition member_of :: "node \<Rightarrow> string list \<Rightarrow> bool" where
  "member_of x fo = (case x of Single s \<Rightarrow> s \<in> set fo | Tuple t \<Rightarrow> False)"

fun merge_ends :: "string list list \<Rightarrow> node \<times> node \<Rightarrow> node \<times> node" where
  "merge_ends [] (start, stop) = (start, stop)"
| "merge_ends (fo # forced_orders) (start, stop) =
     merge_ends forced_orders
       (if member_of start fo then Tuple fo else start,
        if member_of stop fo then Tuple fo else stop)"

definition merge_connections ::
    "(string \<times> string) list \<Rightarrow> string list list \<Rightarrow> (node \<times> node) list" where
  "merge_connections connections forced_orders =
     map (\<lambda>(start, stop). merge_ends forced_orders (Single start, Single stop)) connections"

text \<open>The inner loop over the forced orders with its \<^verbatim>\<open>else\<close> branch.\<close>

fun place_source :: "string \<Rightarrow> string list list \<Rightarrow> node list \<Rightarrow> node list" where
  "place_source s [] all_sources = all_sources @ [Single s]"
| "place_source s (fo # forced_orders) all_sources =
     (if s \<in> set (flatten all_sources) then all_sources
      else if s \<in> set fo then all_sources @ [Tuple fo]
      else place_source s forced_orders all_sources)"

definition get_all_sinks_and_sources ::
    "string list list \<Rightarrow> (string \<times> string) list \<Rightarrow> json \<Rightarrow> error + (string list \<times> node list)" where
  "get_all_sinks_and_sources forced_orders connections layout =
     (if connections = [] then Inl IndexError
      else let all_sinks = sort (map snd connections) in
        ebind (gather_array_nodes layout) (\<lambda>nodes.
          Inr (all_sinks,
               fold (\<lambda>s all_sources. if s \<in> set all_sinks then all_sources
                                      else place_source s forced_orders all_sources)
                    nodes [])))"

text \<open>\<^verbatim>\<open>for s in source_set: remaining_sources.remove(s)\<close>, the set taken in the order
  \<open>order\<close>.\<close>

fun remove_each :: "'a list \<Rightarrow> 'a list \<Rightarrow> error + 'a list" where
  "remove_each [] remaining_sources = Inr remaining_sources"
| "remove_each (s # order) remaining_sources =
     (if s \<in> set remaining_sources then remove_each order (remove1 s remaining_sources)
      else Inl ValueError)"

text \<open>The \<^verbatim>\<open>while remaining_sources\<close> loop of \<^verbatim>\<open>group_into_hubs\<close>, from its head.\<close>

partial_function (option) group_loop ::
    "(node set \<Rightarrow> node list) \<Rightarrow> (node \<times> node) list \<Rightarrow> json \<Rightarrow> (string \<times> string) list
     \<Rightarrow> node list \<Rightarrow> hub list \<Rightarrow> (error + hub list) option" where
  "group_loop it m_cons layout connections remaining_sources hubs =
     (case remaining_sources of
        [] \<Rightarrow> Some (Inr hubs)
      | node # others \<Rightarrow>
          (case get_forward_closure node m_cons of
             None \<Rightarrow> None
           | Some (source_set, sink_set) \<Rightarrow>
               (case remove_each (it source_set) remaining_sources of
                  Inl e \<Rightarrow> Some (Inl e)
                | Inr remaining \<Rightarrow>
                    (case Hub_create it source_set sink_set layout connections of
                       Inl e \<Rightarrow> Some (Inl e)
                     | Inr h \<Rightarrow>
                         group_loop it m_cons layout connections remaining (hubs @ [h])))))"

declare group_loop.simps [code]

definition group_into_hubs ::
    "(node set \<Rightarrow> node list) \<Rightarrow> node list \<Rightarrow> string list list \<Rightarrow> (string \<times> string) list
     \<Rightarrow> json \<Rightarrow> (error + hub list) option" where
  "group_into_hubs it remaining_sources forced_orders connections layout =
     group_loop it (merge_connections connections forced_orders) layout connections
       remaining_sources []"

text \<open>The assignments to the entries of a node of the layout, reached by its path.\<close>

fun update_path :: "string list \<Rightarrow> ((string \<times> json) list \<Rightarrow> (string \<times> json) list) \<Rightarrow> json
    \<Rightarrow> error + json" where
  "update_path [] f current_node =
     (case current_node of JDict d \<Rightarrow> Inr (JDict (f d)) | _ \<Rightarrow> Inl TypeError)"
| "update_path (p # ps) f current_node =
     (case current_node of
        JDict d \<Rightarrow>
          (case map_of d p of
             None \<Rightarrow> Inl KeyError
           | Some v \<Rightarrow> ebind (update_path ps f v) (\<lambda>v'. Inr (JDict (AList.update p v' d))))
      | _ \<Rightarrow> Inl TypeError)"

fun set_slices :: "nat \<Rightarrow> (node \<times> int \<times> int) list \<Rightarrow> json \<Rightarrow> error + json" where
  "set_slices hub_nr [] layout = Inr layout"
| "set_slices hub_nr ((buffer_name, (start, stop)) # indices) layout =
     (case buffer_name of
        Tuple t \<Rightarrow> Inl AttributeError
      | Single path \<Rightarrow>
          ebind (update_path (split_on CHR ''.'' path)
                   (\<lambda>d. AList.update ''@hub'' (JInt (int hub_nr))
                          (AList.update ''@slice'' (JSlice start stop) d)) layout)
            (set_slices hub_nr indices))"

fun layout_hubs_from :: "nat \<Rightarrow> hub list \<Rightarrow> json \<Rightarrow> error + json" where
  "layout_hubs_from hub_nr [] layout = Inr layout"
| "layout_hubs_from hub_nr (h # hubs) layout =
     ebind (get_indices h) (\<lambda>indices.
     ebind (set_slices hub_nr indices layout) (layout_hubs_from (Suc hub_nr) hubs))"

definition layout_hubs :: "hub list \<Rightarrow> json \<Rightarrow> error + json" where
  "layout_hubs hubs layout = layout_hubs_from 0 hubs layout"

text \<open>The last two statements of \<^verbatim>\<open>create_layout\<close>: the shape of the parameters.\<close>

definition add_parameter_shape :: "json \<Rightarrow> error + json" where
  "add_parameter_shape layout =
     ebind (get_by_path ''parameters'' layout) (\<lambda>p.
       case p of
         JDict d \<Rightarrow>
           (case map_of d ''@slice'' of
              None \<Rightarrow> Inl KeyError
            | Some (JSlice a b) \<Rightarrow>
                update_path [''parameters''] (AList.update ''@shape'' (JTuple [b - a])) layout
            | Some _ \<Rightarrow> Inl TypeError)
       | _ \<Rightarrow> Inl TypeError)"

definition create_layout ::
    "(node set \<Rightarrow> node list) \<Rightarrow> layers \<Rightarrow> (error + hub list \<times> json) option" where
  "create_layout it ls =
     (case get_forced_orders ls of
        Inl e \<Rightarrow> Some (Inl e)
      | Inr forced_orders \<Rightarrow>
          (let connections = get_connections ls;
               layout = create_layout_stub ls
           in case get_all_sinks_and_sources forced_orders connections layout of
                Inl e \<Rightarrow> Some (Inl e)
              | Inr (all_sinks, all_sources) \<Rightarrow>
                  (case group_into_hubs it all_sources forced_orders connections layout of
                     None \<Rightarrow> None
                   | Some (Inl e) \<Rightarrow> Some (Inl e)
                   | Some (Inr hubs) \<Rightarrow>
                       (let hubs' = sort_key btype hubs in
                        Some (ebind (layout_hubs hubs' layout) (\<lambda>layout'.
                              ebind (add_parameter_shape layout') (\<lambda>layout''.
                              Inr (hubs', layout''))))))))"

subsection \<open>Notions used to state the properties\<close>

text \<open>The members of a unit, and a unit with a function applied to its members.\<close>

fun elems :: "'a nested \<Rightarrow> 'a list" where
  "elems (Single x) = [x]"
| "elems (Tuple xs) = xs"

fun map_nested :: "('a \<Rightarrow> 'b) \<Rightarrow> 'a nested \<Rightarrow> 'b nested" where
  "map_nested f (Single x) = Single (f x)"
| "map_nested f (Tuple xs) = Tuple (map f xs)"

text \<open>The table with its rows taken in the order \<open>perm\<close>.\<close>

definition select_rows :: "table \<Rightarrow> nat list \<Rightarrow> table" where
  "select_rows t perm = t\<lparr>rows := map (\<lambda>i. rows t ! i) perm\<rparr>"

text \<open>
  The pattern of three producers and three consumers in which each consumer reads two of the
  producers: X from A and B, Y from B and C, Z from A and C.
\<close>

definition abc_hub :: hub where
  "abc_hub = Hub [Single ''A'', Single ''B'', Single ''C'']
                 [Single ''X'', Single ''Y'', Single ''Z''] 0 0"

definition abc_connections :: "(string \<times> string) list" where
  "abc_connections = [(''A'', ''X''), (''A'', ''Z''), (''B'', ''X''), (''B'', ''Y''),
                      (''C'', ''Y''), (''C'', ''Z'')]"

text \<open>The same hub with its connection table filled in, and a table of four rows in which
  every column holds one run of ones.\<close>

definition abc_table :: table where
  "abc_table = \<lparr>ncols = 3, rows = [[1, 0, 1], [1, 1, 0], [0, 1, 1]]\<rparr>"

definition abc_filled :: hub where
  "abc_filled = abc_hub\<lparr>connection_table := Some abc_table\<rparr>"

definition staircase :: table where
  "staircase = \<lparr>ncols = 2, rows = [[0, 0], [1, 0], [1, 1], [0, 1]]\<rparr>"

text \<open>
  What the loop of \<^verbatim>\<open>set_up_connection_table\<close> writes: row \<open>i\<close>, column \<open>j\<close> is set
  when some connection passes the two membership tests and is looked up at \<open>i\<close> and \<open>j\<close>.
\<close>

definition marks :: "node list \<Rightarrow> string list \<Rightarrow> node list \<Rightarrow> (string \<times> string) list
    \<Rightarrow> nat \<Rightarrow> nat \<Rightarrow> bool" where
  "marks srcs flat snks connections i j =
     list_ex (\<lambda>(start, stop). Single start \<in> set srcs \<and> Single stop \<in> set snks \<and>
                index_of flat start = Some i \<and> index_of snks (Single stop) = Some j) connections"

text \<open>
  The scenario of three producers A, B, C of 2, 3 and 4 elements and two consumers, X reading
  A and B, Y reading B and C: its layout, the hub that \<^verbatim>\<open>Hub.create\<close> returns for it,
  and an iteration order of the source set.
\<close>

definition leaf :: "int \<Rightarrow> json" where
  "leaf n = JDict (to_json \<lparr>feature_size = n, buffer_type = 0, context_opt = None\<rparr>)"

definition abc_layout :: json where
  "abc_layout = JDict [(''A'', leaf 2), (''B'', leaf 3), (''C'', leaf 4)]"

definition abc_set :: "node set" where
  "abc_set = {Single ''A'', Single ''B'', Single ''C''}"

definition xy_set :: "node set" where
  "xy_set = {Single ''X'', Single ''Y''}"

definition xy_connections :: "(string \<times> string) list" where
  "xy_connections = [(''A'', ''X''), (''B'', ''X''), (''B'', ''Y''), (''C'', ''Y'')]"

definition abc_it :: "node set \<Rightarrow> node list" where
  "abc_it s = [Single ''C'', Single ''A'', Single ''B'']"

definition abc_solved :: hub where
  "abc_solved = \<lparr>sources = [Single ''A'', Single ''B'', Single ''C''],
     sinks = [Single ''X'', Single ''Y''], btype = 0, context_size = 0,
     connection_table = Some \<lparr>ncols = 2, rows = [[1, 0], [1, 1], [0, 1]]\<rparr>,
     sizes = [2, 3, 4], size_hub = 9\<rparr>"




definition fo_connections :: "(string \<times> string) list" where
  "fo_connections = [(''L.a'', ''X'')]"


definition fo_hub :: hub where
  "fo_hub = Hub [Tuple [''L.a'', ''L.b'']] [Single ''X''] 0 0"

definition fo_solved :: hub where
  "fo_solved = \<lparr>sources = [Single ''L.a'', Single ''L.b''],
     sinks = [Single ''X''], btype = 0, context_size = 0,
     connection_table = Some \<lparr>ncols = 1, rows = [[0], [0]]\<rparr>,
     sizes = [2, 3], size_hub = 5\<rparr>"

text \<open>
  The connected component of a node in the graph of producers and consumers: what is reached
  from the node by following connections forwards from a producer and backwards from a
  consumer. A pair of sets is closed when it holds the consumers of its producers and the
  producers of its consumers.
\<close>

inductive reach_source :: "('a \<times> 'a) list \<Rightarrow> 'a \<Rightarrow> 'a \<Rightarrow> bool"
  and reach_sink :: "('a \<times> 'a) list \<Rightarrow> 'a \<Rightarrow> 'a \<Rightarrow> bool"
  for connections :: "('a \<times> 'a) list" and node :: 'a where
  seed: "reach_source connections node node"
| forward: "reach_source connections node a \<Longrightarrow> (a, b) \<in> set connections
     \<Longrightarrow> reach_sink connections node b"
| backward: "reach_sink connections node b \<Longrightarrow> (a, b) \<in> set connections
     \<Longrightarrow> reach_source connections node a"

definition closed_pair :: "('a \<times> 'a) list \<Rightarrow> 'a set \<Rightarrow> 'a set \<Rightarrow> bool" where
  "closed_pair connections s k =
     (\<forall>(a, b)\<in>set connections. (a \<in> s \<longrightarrow> b \<in> k) \<and> (b \<in> k \<longrightarrow> a \<in> s))"

text \<open>The invariant of the loop.\<close>

definition closure_inv :: "('a \<times> 'a) list \<Rightarrow> 'a \<Rightarrow> 'a set \<Rightarrow> 'a set \<Rightarrow> bool" where
  "closure_inv cs n s k =
     ((targets_of cs {n} = {} \<and> s = {n} \<and> k = {}) \<or>
      (targets_of cs {n} \<noteq> {} \<and> n \<in> s \<and> targets_of cs {n} \<subseteq> k \<and>
       k \<subseteq> targets_of cs s \<and> s \<subseteq> starts_of cs k \<and>
       s \<subseteq> insert n (fst ` set cs) \<and> k \<subseteq> snd ` set cs \<and>
       s \<subseteq> {a. reach_source cs n a} \<and> k \<subseteq> {b. reach_sink cs n b}))"

definition ring :: "(string \<times> string) list" where
  "ring = [(''A'', ''X''), (''B'', ''X''), (''B'', ''Y''), (''C'', ''Z'')]"

text \<open>
  A network of two layers: an input layer with one output, connected to a layer with one input,
  one output, two parameters and one internal; and the iteration order that sorts a set.
\<close>

definition shp :: "int \<Rightarrow> shape_template" where
  "shp n = \<lparr>feature_size = n, buffer_type = 0, context_opt = None\<rparr>"

definition net :: layers where
  "net = [(''In'', \<lparr>in_shapes = [], out_shapes = [(''default'', shp 4)], parameter_structure = [],
                   internal_structure = [],
                   outgoing = [\<lparr>start_layer = ''In'', output_name = ''default'',
                                end_layer = ''Fc'', input_name = ''default''\<rparr>]\<rparr>),
          (''Fc'', \<lparr>in_shapes = [(''default'', shp 4)], out_shapes = [(''default'', shp 3)],
                   parameter_structure = [(''W'', shp 12), (''b'', shp 3)],
                   internal_structure = [(''H'', shp 3)],
                   outgoing = []\<rparr>)]"

definition it0 :: "node set \<Rightarrow> node list" where
  "it0 s = map Single (sorted_list_of_set (un_Single ` Set.filter is_Single s)) @
           map Tuple (sorted_list_of_set (un_Tuple ` Set.filter is_Tuple s))"

text \<open>
  Every column of a table satisfies the contiguity predicate of the spec.
\<close>

definition columns_contiguous :: "table \<Rightarrow> bool" where
  "columns_contiguous t = list_all (\<lambda>j. ones_single_run (column t j)) [0..<ncols t]"

text \<open>
  A hub of three producers whose one consumer X reads A and C: in the declared order B splits
  the two, and the first ordering that passes is A, C, B.
\<close>

definition gap_table :: table where
  "gap_table = \<lparr>ncols = 1, rows = [[1], [0], [1]]\<rparr>"

definition gap_hub :: hub where
  "gap_hub = (Hub [Single ''A'', Single ''B'', Single ''C''] [Single ''X''] 0 0)
               \<lparr>connection_table := Some gap_table\<rparr>"

definition gap_solved :: hub where
  "gap_solved = gap_hub\<lparr>connection_table := Some \<lparr>ncols = 1, rows = [[1], [1], [0]]\<rparr>,
                         sources := [Single ''A'', Single ''C'', Single ''B'']\<rparr>"

text \<open>
  The element counts under which the running sums of \<^verbatim>\<open>get_indices\<close> stay within 64
  bits: none is negative and their sum is below \<open>2^63\<close>.
\<close>

definition sizes_fit :: "int list \<Rightarrow> bool" where
  "sizes_fit zs = (list_all (\<lambda>z. 0 \<le> z) zs \<and> sum_list zs < 2 ^ 63)"

text \<open>
  Two producers of \<open>2^62\<close> elements each, with no consumer; and the forced-order hub of
  above with members of \<open>2^62\<close> elements each.
\<close>

definition big_layout :: json where
  "big_layout = JDict [(''A'', leaf (2 ^ 62)), (''B'', leaf (2 ^ 62))]"

definition big_set :: "node set" where
  "big_set = {Single ''A'', Single ''B''}"

definition big_it :: "node set \<Rightarrow> node list" where
  "big_it s = [Single ''A'', Single ''B'']"

definition big_solved :: hub where
  "big_solved = \<lparr>sources = [Single ''A'', Single ''B''], sinks = [], btype = 0,
     context_size = 0, connection_table = Some \<lparr>ncols = 0, rows = [[], []]\<rparr>,
     sizes = [2 ^ 62, 2 ^ 62], size_hub = 2 ^ 63\<rparr>"



text \<open>
  The forced-order tuples that \<^verbatim>\<open>get_forced_orders\<close> extracts from a registry before it
  looks for overlaps; and a registry in which the parameters of one layer and the internals of
  another give the same path.
\<close>

definition extracted_orders :: "layers \<Rightarrow> string list list" where
  "extracted_orders ls = filter (\<lambda>fo. fo \<noteq> [])
            (map (\<lambda>(n, l). get_parameter_order n l) ls @
             map (\<lambda>(n, l). get_internal_order n l) ls)"

definition clash :: layers where
  "clash = [(''X.internals'', \<lparr>in_shapes = [], out_shapes = [],
                parameter_structure = [(''b'', shp 2)], internal_structure = [], outgoing = []\<rparr>),
            (''X'', \<lparr>in_shapes = [], out_shapes = [], parameter_structure = [],
                internal_structure = [(''parameters.b'', shp 2)], outgoing = []\<rparr>)]"

section \<open>Properties\<close>

subsection \<open>A single column\<close>

lemma changes_tv: "changes col = tv 0 col"
proof -
  have "sum_list (map abs (map2 (-) (tl (p # col @ [0])) (p # col @ [0]))) = tv p col" for p
    by (induction col arbitrary: p) auto
  then show ?thesis by (simp add: changes_def)
qed

lemma tv_nonneg: "0 \<le> tv p xs"
  by (induction xs arbitrary: p) auto

lemma tv0_zero: "list_all (\<lambda>x. x = 0 \<or> x = 1) xs \<Longrightarrow> (tv 0 xs \<le> 0) = list_all (\<lambda>y. y = 0) xs"
proof (induction xs)
  case Nil then show ?case by simp
next
  case (Cons x xs)
  then show ?case using tv_nonneg[of 1 xs] by auto
qed

lemma tv1_ge: "list_all (\<lambda>x. x = 0 \<or> x = 1) xs \<Longrightarrow> 1 \<le> tv 1 xs"
proof (induction xs)
  case Nil then show ?case by simp
next
  case (Cons x xs)
  then show ?case using tv_nonneg[of 0 xs] by auto
qed

lemma tv1_run: "list_all (\<lambda>x. x = 0 \<or> x = 1) xs \<Longrightarrow> (tv 1 xs \<le> 1) = run1 xs"
proof (induction xs)
  case Nil then show ?case by simp
next
  case (Cons x xs)
  then show ?case using tv0_zero[of xs] by auto
qed

lemma tv0_run: "list_all (\<lambda>x. x = 0 \<or> x = 1) xs \<Longrightarrow> (tv 0 xs \<le> 2) = run0 xs"
proof (induction xs)
  case Nil then show ?case by simp
next
  case (Cons x xs)
  then show ?case using tv1_run[of xs] by auto
qed

lemma zeros_iff: "list_all (\<lambda>x. x = 0 \<or> x = 1) (xs :: int list) \<Longrightarrow>
   list_all (\<lambda>y. y = 0) xs = (\<forall>i<length xs. xs ! i \<noteq> 1)"
  by (auto simp: list_all_length)

lemma run1_iff: "list_all (\<lambda>x. x = 0 \<or> x = 1) xs \<Longrightarrow>
   run1 xs = (\<exists>b\<le>length xs. \<forall>i<length xs. (xs ! i = 1) = (i < b))"
proof (induction xs)
  case Nil then show ?case by simp
next
  case (Cons x xs)
  then have x01: "x = 0 \<or> x = 1" and xs01: "list_all (\<lambda>x. x = 0 \<or> x = 1) xs" by auto
  show ?case
  proof (cases "x = 1")
    case True
    have "(\<exists>b\<le>length xs. \<forall>i<length xs. (xs ! i = 1) = (i < b)) =
          (\<exists>b\<le>length (x # xs). \<forall>i<length (x # xs). ((x # xs) ! i = 1) = (i < b))" (is "?L = ?R")
    proof
      assume ?L
      then obtain b where b: "b \<le> length xs" "\<forall>i<length xs. (xs ! i = 1) = (i < b)" by blast
      have "\<forall>i<length (x # xs). ((x # xs) ! i = 1) = (i < Suc b)"
        using b True by (auto simp: nth_Cons split: nat.splits)
      with b(1) show ?R by (intro exI[of _ "Suc b"]) simp
    next
      assume ?R
      then obtain b where b: "b \<le> length (x # xs)" "\<forall>i<length (x # xs). ((x # xs) ! i = 1) = (i < b)" by blast
      from b(2)[rule_format, of 0] True have "0 < b" by simp
      then obtain b' where b': "b = Suc b'" by (cases b) auto
      have "\<forall>i<length xs. (xs ! i = 1) = (i < b')"
      proof (intro allI impI)
        fix i assume "i < length xs"
        with b(2)[rule_format, of "Suc i"] b' show "(xs ! i = 1) = (i < b')" by simp
      qed
      with b(1) b' show ?L by (intro exI[of _ b']) simp
    qed
    with Cons.IH[OF xs01] True show ?thesis by simp
  next
    case False
    with x01 have x0: "x = 0" by simp
    have "(\<forall>i<length xs. xs ! i \<noteq> 1) =
          (\<exists>b\<le>length (x # xs). \<forall>i<length (x # xs). ((x # xs) ! i = 1) = (i < b))" (is "?L = ?R")
    proof
      assume ?L
      then have "\<forall>i<length (x # xs). ((x # xs) ! i = 1) = (i < 0)"
        using x0 by (auto simp: nth_Cons split: nat.splits)
      then show ?R by (intro exI[of _ 0]) simp
    next
      assume ?R
      then obtain b where b: "\<forall>i<length (x # xs). ((x # xs) ! i = 1) = (i < b)" by blast
      from b[rule_format, of 0] x0 have "b = 0" by simp
      show ?L
      proof (intro allI impI)
        fix i assume "i < length xs"
        with b[rule_format, of "Suc i"] \<open>b = 0\<close> show "xs ! i \<noteq> 1" by simp
      qed
    qed
    with zeros_iff[OF xs01] x0 show ?thesis by simp
  qed
qed

lemma run0_iff: "list_all (\<lambda>x. x = 0 \<or> x = 1) xs \<Longrightarrow>
   run0 xs = (\<exists>a\<le>length xs. \<exists>b\<le>length xs. \<forall>i<length xs. (xs ! i = 1) = (a \<le> i \<and> i < b))"
proof (induction xs)
  case Nil then show ?case by simp
next
  case (Cons x xs)
  then have x01: "x = 0 \<or> x = 1" and xs01: "list_all (\<lambda>x. x = 0 \<or> x = 1) xs" by auto
  let ?R = "\<exists>a\<le>length (x # xs). \<exists>b\<le>length (x # xs).
              \<forall>i<length (x # xs). ((x # xs) ! i = 1) = (a \<le> i \<and> i < b)"
  show ?case
  proof (cases "x = 1")
    case True
    have "(\<exists>b\<le>length xs. \<forall>i<length xs. (xs ! i = 1) = (i < b)) = ?R" (is "?L = _")
    proof
      assume ?L
      then obtain b where b: "b \<le> length xs" "\<forall>i<length xs. (xs ! i = 1) = (i < b)" by blast
      have "\<forall>i<length (x # xs). ((x # xs) ! i = 1) = (0 \<le> i \<and> i < Suc b)"
        using b True by (auto simp: nth_Cons split: nat.splits)
      with b(1) show ?R by (intro exI[of _ 0] exI[of _ "Suc b"] conjI) simp_all
    next
      assume ?R
      then obtain a b where b: "b \<le> length (x # xs)"
          "\<forall>i<length (x # xs). ((x # xs) ! i = 1) = (a \<le> i \<and> i < b)" by blast
      from b(2)[rule_format, of 0] True have "a = 0" "0 < b" by simp_all
      then obtain b' where b': "b = Suc b'" by (cases b) auto
      have "\<forall>i<length xs. (xs ! i = 1) = (i < b')"
      proof (intro allI impI)
        fix i assume "i < length xs"
        with b(2)[rule_format, of "Suc i"] b' \<open>a = 0\<close> show "(xs ! i = 1) = (i < b')" by simp
      qed
      with b(1) b' show ?L by (intro exI[of _ b']) simp
    qed
    with run1_iff[OF xs01] True show ?thesis by simp
  next
    case False
    with x01 have x0: "x = 0" by simp
    have "(\<exists>a\<le>length xs. \<exists>b\<le>length xs. \<forall>i<length xs. (xs ! i = 1) = (a \<le> i \<and> i < b)) = ?R"
      (is "?L = _")
    proof
      assume ?L
      then obtain a b where b: "a \<le> length xs" "b \<le> length xs"
         "\<forall>i<length xs. (xs ! i = 1) = (a \<le> i \<and> i < b)" by blast
      have "\<forall>i<length (x # xs). ((x # xs) ! i = 1) = (Suc a \<le> i \<and> i < Suc b)"
        using b x0 by (auto simp: nth_Cons split: nat.splits)
      with b(1,2) show ?R by (intro exI[of _ "Suc a"] exI[of _ "Suc b"] conjI) simp_all
    next
      assume ?R
      then obtain a b where b: "a \<le> length (x # xs)" "b \<le> length (x # xs)"
          "\<forall>i<length (x # xs). ((x # xs) ! i = 1) = (a \<le> i \<and> i < b)" by blast
      have *: "\<forall>i<length xs. (xs ! i = 1) = (a - 1 \<le> i \<and> i < b - 1)"
      proof (intro allI impI)
        fix i assume i: "i < length xs"
        from b(3)[rule_format, of 0] x0 have "\<not> (a \<le> 0 \<and> 0 < b)" by simp
        with b(3)[rule_format, of "Suc i"] i show "(xs ! i = 1) = (a - 1 \<le> i \<and> i < b - 1)"
          by auto
      qed
      from b(1,2) have "a - 1 \<le> length xs" "b - 1 \<le> length xs" by simp_all
      with * show ?L by blast
    qed
    with Cons.IH[OF xs01] x0 show ?thesis by simp
  qed
qed

lemma ones_single_run_iff:
  "ones_single_run col =
     (\<exists>a\<le>length col. \<exists>b\<le>length col. \<forall>i<length col. (col ! i = 1) = (a \<le> i \<and> i < b))"
proof -
  have E: "list_ex P [0..<Suc n] = (\<exists>a\<le>n. P a)" for P n
    unfolding list_ex_iff by (metis atLeastLessThan_iff less_Suc_eq_le set_upt zero_le)
  have A: "list_all P [0..<n] = (\<forall>i<n. P i)" for P n
    unfolding list_all_iff by (metis atLeastLessThan_iff set_upt zero_le)
  show ?thesis unfolding ones_single_run_def E A ..
qed

lemma changes_single_run:
  "list_all (\<lambda>x. x = 0 \<or> x = 1) col \<Longrightarrow> (changes col \<le> 2) = ones_single_run col"
  by (simp add: changes_tv tv0_run run0_iff ones_single_run_iff)

subsection \<open>The contiguity check on a table\<close>

lemma length_sum_axis0:
  "\<forall>r\<in>set m. length r = c \<Longrightarrow> length (sum_axis0 c m) = c"
  unfolding sum_axis0_def by (induction m) auto

lemma nth_sum_axis0:
  "\<forall>r\<in>set m. length r = c \<Longrightarrow> j < c \<Longrightarrow>
     sum_axis0 c m ! j = sum_list (map (\<lambda>r. r ! j) m)"
proof (induction m)
  case Nil then show ?case by (simp add: sum_axis0_def)
next
  case (Cons r m)
  then have len: "length (foldr (map2 (+)) m (replicate c 0)) = c"
    using length_sum_axis0[of m c] by (simp add: sum_axis0_def)
  from Cons show ?case using len by (simp add: sum_axis0_def)
qed

lemma np_diff_simps:
  "np_diff [] = []" "np_diff [a] = []"
  "np_diff (a # b # p) = map2 (-) b a # np_diff (b # p)"
  by (simp_all add: np_diff_def)

lemma np_diff_rows:
  "\<forall>r\<in>set p. length r = c \<Longrightarrow> \<forall>r\<in>set (np_diff p). length r = c"
proof (induction p rule: induct_list012)
  case (3 a b p)
  then show ?case by (simp add: np_diff_simps)
qed (simp_all add: np_diff_simps)

lemma np_diff_column:
  "\<forall>r\<in>set p. length r = c \<Longrightarrow> j < c \<Longrightarrow>
     map (\<lambda>r. r ! j) (np_diff p) = map2 (-) (tl (map (\<lambda>r. r ! j) p)) (map (\<lambda>r. r ! j) p)"
proof (induction p)
  case Nil then show ?case by (simp add: np_diff_simps)
next
  case (Cons r p)
  then show ?case by (cases p) (auto simp: np_diff_simps)
qed

lemma abs_diff_column_sum:
  assumes p: "\<forall>r\<in>set p. length r = c" and j: "j < c"
  shows "sum_axis0 c (map (map abs) (np_diff p)) ! j =
         sum_list (map abs (map2 (-) (tl (map (\<lambda>r. r ! j) p)) (map (\<lambda>r. r ! j) p)))"
proof -
  have d: "\<forall>r\<in>set (map (map abs) (np_diff p)). length r = c"
    using np_diff_rows[OF p] by simp
  have "map (\<lambda>r. r ! j) (map (map abs) (np_diff p)) = map abs (map (\<lambda>r. r ! j) (np_diff p))"
    using np_diff_rows[OF p] j by simp
  then show ?thesis
    using nth_sum_axis0[OF d j] np_diff_column[OF p j] by simp
qed

lemma single_buffer_columns:
  assumes "wf_table t"
  shows "can_be_connected_with_single_buffer t = (\<forall>j<ncols t. changes (column t j) \<le> 2)"
proof -
  define c where "c = ncols t"
  define p where "p = replicate c (0::int) # rows t @ [replicate c 0]"
  define s where "s = sum_axis0 c (map (map abs) (np_diff p))"
  from assms have p: "\<forall>r\<in>set p. length r = c"
    by (auto simp: wf_table_def list_all_iff p_def c_def)
  then have "\<forall>r\<in>set (map (map abs) (np_diff p)). length r = c"
    using np_diff_rows[OF p] by simp
  then have len: "length s = c"
    unfolding s_def by (rule length_sum_axis0)
  have col: "s ! j = changes (column t j)" if j: "j < c" for j
  proof -
    have "map (\<lambda>r. r ! j) p = 0 # column t j @ [0]"
      using j by (simp add: column_def p_def)
    then show ?thesis
      unfolding s_def abs_diff_column_sum[OF p j] changes_def by simp
  qed
  have "can_be_connected_with_single_buffer t = list_all (\<lambda>v. v \<le> 2) s"
    by (simp add: can_be_connected_with_single_buffer_def Let_def s_def p_def c_def)
  also have "\<dots> = (\<forall>j<c. s ! j \<le> 2)"
    using len by (simp add: list_all_length)
  finally show ?thesis using col by (simp add: c_def)
qed

lemma column_zero_one:
  "wf_table t \<Longrightarrow> zero_one t \<Longrightarrow> j < ncols t \<Longrightarrow> list_all (\<lambda>x. x = 0 \<or> x = 1) (column t j)"
  by (auto simp: wf_table_def zero_one_def column_def list_all_iff)

text \<open>
  C4. For a table of zeros and ones, \<open>can_be_connected_with_single_buffer\<close> holds exactly
  when in every column the ones form at most one contiguous run of rows; and for each column
  this is the same as at most two changes in the column padded with a zero above and below.
\<close>

theorem single_buffer_iff_single_run:
  assumes "wf_table t" and "zero_one t"
  shows "can_be_connected_with_single_buffer t =
           (\<forall>j<ncols t. ones_single_run (column t j)) \<and>
         (\<forall>j<ncols t. ones_single_run (column t j) = (changes (column t j) \<le> 2))"
proof -
  have "ones_single_run (column t j) = (changes (column t j) \<le> 2)" if "j < ncols t" for j
    using changes_single_run[OF column_zero_one[OF assms that]] by simp
  then show ?thesis using single_buffer_columns[OF assms(1)] by simp
qed

theorem single_buffer_iff_single_run_witness:
  "wf_table staircase \<and> zero_one staircase \<and>
   can_be_connected_with_single_buffer staircase \<and>
   ones_single_run (column staircase 0) \<and> ones_single_run (column staircase 1)"
proof -
  have wf: "wf_table staircase" by (simp add: wf_table_def staircase_def)
  have zo: "zero_one staircase" by (simp add: zero_one_def staircase_def)
  have cb: "can_be_connected_with_single_buffer staircase" by code_simp
  have n: "ncols staircase = 2" by (simp add: staircase_def)
  from single_buffer_iff_single_run[OF wf zo] cb
  have "\<forall>j<ncols staircase. ones_single_run (column staircase j)" by simp
  with n have "ones_single_run (column staircase 0)" "ones_single_run (column staircase 1)"
    by simp_all
  with wf zo cb show ?thesis by simp
qed

subsection \<open>Orderings of the units\<close>

lemma flatten_concat: "flatten p = concat (map elems p)"
  by (induction p rule: flatten.induct) auto

lemma mset_flatten: "mset p = mset q \<Longrightarrow> mset (flatten p) = mset (flatten q)"
proof -
  assume "mset p = mset q"
  then have "mset (map (\<lambda>u. mset (elems u)) p) = mset (map (\<lambda>u. mset (elems u)) q)"
    by (metis mset_map)
  then have "sum_list (map (\<lambda>u. mset (elems u)) p) = sum_list (map (\<lambda>u. mset (elems u)) q)"
    by (metis sum_mset_sum_list)
  then show ?thesis by (simp add: flatten_concat mset_concat comp_def)
qed

lemma flatten_map_nested: "flatten (map (map_nested f) p) = map f (flatten p)"
  by (induction p rule: flatten.induct) auto

lemma flatten_nested_indices_from:
  "flatten (nested_indices_from k srcs) = [k..<k + length (flatten srcs)]"
proof (induction k srcs rule: nested_indices_from.induct)
  case (1 k) then show ?case by simp
next
  case (2 k x rest)
  then show ?case by (simp del: upt_Suc add: upt_conv_Cons)
next
  case (3 k xs rest)
  have "[k..<k + length xs + length (flatten rest)] =
        [k..<k + length xs] @ [k + length xs..<k + length xs + length (flatten rest)]"
    by (metis le_add1 upt_add_eq_append)
  with 3 show ?case by (simp add: add.assoc)
qed

lemma map_nested_indices_from:
  "map (map_nested (\<lambda>i. (pre @ flatten srcs) ! i)) (nested_indices_from (length pre) srcs) = srcs"
proof (induction srcs arbitrary: pre rule: flatten.induct)
  case 1 then show ?case by simp
next
  case (2 x rest)
  from 2[of "pre @ [x]"] show ?case by simp
next
  case (3 xs rest)
  have "map (\<lambda>i. (pre @ xs @ flatten rest) ! i) [length pre..<length pre + length xs] = xs"
    by (rule nth_equalityI) (auto simp: nth_append)
  with 3[of "pre @ xs"] show ?case by simp
qed

lemma units_of_indices:
  "map (map_nested (\<lambda>i. flatten srcs ! i)) (convert_to_nested_indices srcs) = srcs"
  using map_nested_indices_from[of "[]" srcs] by (simp add: convert_to_nested_indices_def)

lemma permutations_unfold:
  "xs \<noteq> [] \<Longrightarrow> permutations xs =
     concat (map (\<lambda>i. map ((#) (xs ! i)) (permutations (take i xs @ drop (Suc i) xs)))
               [0..<length xs])"
  by (cases xs) (simp_all del: upt_Suc take_Suc_Cons drop_Suc_Cons nth_Cons_Suc)

lemma in_permutations:
  "xs \<noteq> [] \<Longrightarrow> ys \<in> set (permutations xs) =
     (\<exists>i<length xs. \<exists>zs\<in>set (permutations (take i xs @ drop (Suc i) xs)). ys = xs ! i # zs)"
  by (subst permutations_unfold) auto

lemma mset_without_nth:
  assumes "i < length xs"
  shows "mset (take i xs @ drop (Suc i) xs) + {#xs ! i#} = mset xs"
proof -
  have "mset xs = mset (take i xs @ xs ! i # drop (Suc i) xs)"
    using id_take_nth_drop[OF assms] by simp
  then show ?thesis by simp
qed

lemma permutations_set: "set (permutations xs) = {ys. mset ys = mset xs}"
proof (induction xs rule: length_induct)
  case (1 xs)
  show ?case
  proof (cases "xs = []")
    case True then show ?thesis by simp
  next
    case False
    have IH: "set (permutations (take i xs @ drop (Suc i) xs)) =
                {zs. mset zs = mset (take i xs @ drop (Suc i) xs)}" if "i < length xs" for i
      using 1 that by simp
    show ?thesis
    proof (intro set_eqI iffI)
      fix ys assume "ys \<in> set (permutations xs)"
      then obtain i zs where i: "i < length xs" and ys: "ys = xs ! i # zs"
        and zs: "zs \<in> set (permutations (take i xs @ drop (Suc i) xs))"
        using in_permutations[OF False] by blast
      from IH[OF i] zs have "mset zs = mset (take i xs @ drop (Suc i) xs)" by simp
      with mset_without_nth[OF i] ys show "ys \<in> {ys. mset ys = mset xs}" by simp
    next
      fix ys assume "ys \<in> {ys. mset ys = mset xs}"
      then have m: "mset ys = mset xs" by simp
      with False obtain y zs where ys: "ys = y # zs" by (cases ys) auto
      with m have "y \<in> set xs" by (metis list.set_intros(1) mset_eq_setD)
      then obtain i where i: "i < length xs" and y: "xs ! i = y" by (meson in_set_conv_nth)
      from mset_without_nth[OF i] m ys y
      have "add_mset y (mset zs) = add_mset y (mset (take i xs @ drop (Suc i) xs))" by simp
      then have "mset zs = mset (take i xs @ drop (Suc i) xs)" by simp
      with IH[OF i] have "zs \<in> set (permutations (take i xs @ drop (Suc i) xs))" by simp
      with i y ys show "ys \<in> set (permutations xs)"
        using in_permutations[OF False] by blast
    qed
  qed
qed

subsection \<open>Errors, positions and the connection table\<close>

lemma ebind_Inr: "(ebind m f = Inr y) = (\<exists>x. m = Inr x \<and> f x = Inr y)"
  by (cases m) (simp_all add: ebind_def)

lemma ebind_Inl: "(ebind m f = Inl e) = (m = Inl e \<or> (\<exists>x. m = Inr x \<and> f x = Inl e))"
  by (cases m) (simp_all add: ebind_def)

lemma emap_Inr: "emap f xs = Inr ys \<Longrightarrow> list_all2 (\<lambda>x y. f x = Inr y) xs ys"
  by (induction xs arbitrary: ys) (auto simp: ebind_Inr)

lemma emap_success: "\<forall>x\<in>set xs. \<exists>y. f x = Inr y \<Longrightarrow> \<exists>ys. emap f xs = Inr ys"
  by (induction xs) (auto simp: ebind_Inr)

lemma index_of_Some:
  "index_of xs y = Some i \<Longrightarrow> i < length xs \<and> xs ! i = y \<and> (\<forall>k<i. xs ! k \<noteq> y)"
proof (induction xs arbitrary: i)
  case Nil then show ?case by simp
next
  case (Cons x xs)
  show ?case
  proof (cases "x = y")
    case True with Cons.prems show ?thesis by simp
  next
    case False
    with Cons.prems obtain i' where i': "index_of xs y = Some i'" "i = Suc i'" by auto
    from Cons.IH[OF i'(1)] False i'(2) show ?thesis by (auto simp: nth_Cons split: nat.splits)
  qed
qed

lemma index_of_None: "(index_of xs y = None) = (y \<notin> set xs)"
  by (induction xs) auto

lemma index_of_distinct: "distinct xs \<Longrightarrow> i < length xs \<Longrightarrow> index_of xs (xs ! i) = Some i"
proof (induction xs arbitrary: i)
  case Nil then show ?case by simp
next
  case (Cons x xs)
  then show ?case by (cases i) auto
qed

lemma set_entry_shape:
  "ncols (set_entry t i j) = ncols t" "length (rows (set_entry t i j)) = length (rows t)"
  by (simp_all add: set_entry_def)

lemma set_entry_wf: "wf_table t \<Longrightarrow> i < length (rows t) \<Longrightarrow> wf_table (set_entry t i j)"
  by (auto simp: wf_table_def set_entry_def list_all_length nth_list_update)

lemma set_entry_nth:
  "wf_table t \<Longrightarrow> i < length (rows t) \<Longrightarrow> j < ncols t \<Longrightarrow> i' < length (rows t) \<Longrightarrow> j' < ncols t \<Longrightarrow>
   rows (set_entry t i j) ! i' ! j' = (if i' = i \<and> j' = j then 1 else rows t ! i' ! j')"
  by (auto simp: set_entry_def wf_table_def list_all_length nth_list_update)

lemma fill_table_result:
  assumes "fill_table srcs flat snks connections t = Inr T"
    and "wf_table t" and "length (rows t) = length flat" and "ncols t = length snks"
  shows "ncols T = ncols t \<and> length (rows T) = length (rows t) \<and> wf_table T \<and>
         (\<forall>i<length flat. \<forall>j<length snks.
            rows T ! i ! j = (if marks srcs flat snks connections i j then 1 else rows t ! i ! j))"
  using assms
proof (induction connections arbitrary: t)
  case Nil
  then show ?case by (simp add: marks_def)
next
  case (Cons c connections)
  obtain start stop where c: "c = (start, stop)" by (cases c)
  show ?case
  proof (cases "Single start \<in> set srcs \<and> Single stop \<in> set snks")
    case False
    with Cons.prems c have "fill_table srcs flat snks connections t = Inr T" by auto
    from Cons.IH[OF this Cons.prems(2-4)] False c show ?thesis by (auto simp: marks_def)
  next
    case True
    with Cons.prems(1) c obtain a b where a: "index_of flat start = Some a"
      and b: "index_of snks (Single stop) = Some b"
      and r: "fill_table srcs flat snks connections (set_entry t a b) = Inr T"
      by (auto split: option.splits)
    from index_of_Some[OF a] index_of_Some[OF b] have ab: "a < length flat" "b < length snks" by simp_all
    have wf': "wf_table (set_entry t a b)"
      using Cons.prems(2,3) ab(1) by (intro set_entry_wf) simp_all
    have sh: "length (rows (set_entry t a b)) = length flat" "ncols (set_entry t a b) = length snks"
      using Cons.prems(3,4) by (simp_all add: set_entry_shape)
    note IH = Cons.IH[OF r wf' sh]
    have ent: "rows T ! i ! j = (if marks srcs flat snks (c # connections) i j then 1 else rows t ! i ! j)"
      if ij: "i < length flat" "j < length snks" for i j
    proof -
      have m: "marks srcs flat snks (c # connections) i j =
               ((i = a \<and> j = b) \<or> marks srcs flat snks connections i j)"
        using True a b c by (auto simp: marks_def)
      have "rows (set_entry t a b) ! i ! j = (if i = a \<and> j = b then 1 else rows t ! i ! j)"
        using set_entry_nth[OF Cons.prems(2), of a b i j] ab ij Cons.prems(3,4) by simp
      with IH ij m show ?thesis by auto
    qed
    from IH ent show ?thesis by (simp add: set_entry_shape)
  qed
qed

lemma np_zeros_shape:
  "wf_table (np_zeros r c)" "length (rows (np_zeros r c)) = r" "ncols (np_zeros r c) = c"
  "i < r \<Longrightarrow> j < c \<Longrightarrow> rows (np_zeros r c) ! i ! j = 0"
  by (simp_all add: np_zeros_def wf_table_def list_all_iff)

subsection \<open>The search of \<^verbatim>\<open>permute_rows\<close>\<close>

lemma take_rows_select:
  "\<forall>i\<in>set perm. i < length (rows t) \<Longrightarrow> take_rows t perm = Inr (select_rows t perm)"
  by (simp add: take_rows_def select_rows_def list_all_iff)

lemma select_rows_shape:
  "ncols (select_rows t p) = ncols t" "length (rows (select_rows t p)) = length p"
  by (simp_all add: select_rows_def)

lemma select_rows_wf:
  "wf_table t \<Longrightarrow> \<forall>i\<in>set p. i < length (rows t) \<Longrightarrow> wf_table (select_rows t p)"
  by (auto simp: wf_table_def select_rows_def list_all_iff)

lemma select_rows_zero_one:
  "zero_one t \<Longrightarrow> \<forall>i\<in>set p. i < length (rows t) \<Longrightarrow> zero_one (select_rows t p)"
  by (auto simp: zero_one_def select_rows_def list_all_iff)

lemma columns_contiguous_iff:
  "columns_contiguous t = (\<forall>j<ncols t. ones_single_run (column t j))"
  by (auto simp: columns_contiguous_def list_all_iff)

lemma single_buffer_runs:
  assumes "wf_table t" and "zero_one t"
  shows "can_be_connected_with_single_buffer t = columns_contiguous t"
proof -
  have "ones_single_run (column t j) = (changes (column t j) \<le> 2)" if "j < ncols t" for j
    using changes_single_run[OF column_zero_one[OF assms that]] by simp
  then show ?thesis
    using single_buffer_columns[OF assms(1)] by (simp add: columns_contiguous_iff)
qed

lemma try_permutations_find:
  assumes "connection_table h = Some t"
    and "\<forall>p\<in>set ps. \<forall>i\<in>set (flatten p). i < length (rows t)"
  shows "try_permutations h flat ps =
     (case find (\<lambda>p. can_be_connected_with_single_buffer (select_rows t (flatten p))) ps of
        None \<Rightarrow> Inl NetworkValidationError
      | Some p \<Rightarrow> Inr (h\<lparr>connection_table := Some (select_rows t (flatten p)),
                         sources := map (\<lambda>i. Single (flat ! i)) (flatten p)\<rparr>))"
  using assms(2)
proof (induction ps)
  case Nil then show ?case by simp
next
  case (Cons p ps)
  then have "take_rows t (flatten p) = Inr (select_rows t (flatten p))"
    by (intro take_rows_select) simp
  with Cons assms(1) show ?case by (simp add: Let_def)
qed

lemma unit_ordering_in_range:
  assumes "mset p = mset (convert_to_nested_indices srcs)"
  shows "set (flatten p) = {0..<length (flatten srcs)}"
proof -
  have "mset (flatten p) = mset (flatten (convert_to_nested_indices srcs))"
    using assms by (rule mset_flatten)
  then have "set (flatten p) = set (flatten (convert_to_nested_indices srcs))"
    by (rule mset_eq_setD)
  then show ?thesis
    by (simp add: convert_to_nested_indices_def flatten_nested_indices_from)
qed

lemma permute_rows_find:
  assumes "connection_table h = Some t"
    and "length (rows t) = length (flatten (sources h))"
  shows "permute_rows h =
     (case find (\<lambda>p. can_be_connected_with_single_buffer (select_rows t (flatten p)))
             (permutations (convert_to_nested_indices (sources h))) of
        None \<Rightarrow> Inl NetworkValidationError
      | Some p \<Rightarrow> Inr (h\<lparr>connection_table := Some (select_rows t (flatten p)),
                         sources := map (\<lambda>i. Single (flatten (sources h) ! i)) (flatten p)\<rparr>))"
proof -
  have "\<forall>p\<in>set (permutations (convert_to_nested_indices (sources h))).
          \<forall>i\<in>set (flatten p). i < length (rows t)"
    using unit_ordering_in_range[of _ "sources h"] assms(2) by (simp add: permutations_set)
  then show ?thesis
    unfolding permute_rows_def Let_def by (rule try_permutations_find[OF assms(1)])
qed

text \<open>Under an ordering of the units, the check of the code is the contiguity of every column.\<close>

lemma ordering_check:
  assumes "wf_table t" and "zero_one t" and "length (rows t) = length (flatten srcs)"
    and "mset p = mset (convert_to_nested_indices srcs)"
  shows "can_be_connected_with_single_buffer (select_rows t (flatten p)) =
         columns_contiguous (select_rows t (flatten p))"
proof -
  have "\<forall>i\<in>set (flatten p). i < length (rows t)"
    using unit_ordering_in_range[OF assms(4)] assms(3) by simp
  then show ?thesis
    using select_rows_wf[OF assms(1)] select_rows_zero_one[OF assms(2)]
    by (intro single_buffer_runs) simp_all
qed

lemma zero_one_nth:
  assumes "wf_table t"
    and "\<forall>i<length (rows t). \<forall>j<ncols t. rows t ! i ! j = 0 \<or> rows t ! i ! j = 1"
  shows "zero_one t"
  unfolding zero_one_def list_all_iff
proof (intro ballI)
  fix r x assume r: "r \<in> set (rows t)" and x: "x \<in> set r"
  from r obtain i where i: "i < length (rows t)" "r = rows t ! i" by (metis in_set_conv_nth)
  with assms(1) have "length r = ncols t" by (simp add: wf_table_def list_all_length)
  with x obtain j where "j < ncols t" "x = r ! j" by (metis in_set_conv_nth)
  with assms(2) i show "x = 0 \<or> x = 1" by auto
qed

lemma fill_table_zeros:
  assumes "fill_table srcs flat snks connections (np_zeros (length flat) (length snks)) = Inr T"
  shows "ncols T = length snks" "length (rows T) = length flat" "wf_table T" "zero_one T"
    "\<forall>i<length flat. \<forall>j<length snks.
        rows T ! i ! j = (if marks srcs flat snks connections i j then 1 else 0)"
proof -
  from fill_table_result[OF assms]
  show a: "ncols T = length snks" and b: "length (rows T) = length flat" and c: "wf_table T"
    and d: "\<forall>i<length flat. \<forall>j<length snks.
        rows T ! i ! j = (if marks srcs flat snks connections i j then 1 else 0)"
    by (simp_all add: np_zeros_shape)
  from a b d show "zero_one T" by (intro zero_one_nth[OF c]) simp
qed

lemma set_up_connection_table_Inr:
  assumes "set_up_connection_table h connections = Inr h1"
  shows "\<exists>T. h1 = h\<lparr>connection_table := Some T\<rparr> \<and>
             fill_table (sources h) (flatten (sources h)) (sinks h) connections
               (np_zeros (length (flatten (sources h))) (length (sinks h))) = Inr T \<and>
             wf_table T \<and> zero_one T \<and> ncols T = length (sinks h) \<and>
             length (rows T) = length (flatten (sources h))"
proof -
  from assms obtain T where T: "fill_table (sources h) (flatten (sources h)) (sinks h) connections
               (np_zeros (length (flatten (sources h))) (length (sinks h))) = Inr T"
    and h1: "h1 = h\<lparr>connection_table := Some T\<rparr>"
    by (auto simp: set_up_connection_table_def Let_def ebind_Inr)
  from fill_table_zeros[OF T] T h1 show ?thesis by blast
qed

lemma abc_unsat: "hub_setup abc_hub abc_connections = Inl NetworkValidationError"
  by code_simp

text \<open>
  C1. Let the connection table of a hub be an array of zeros and ones with one row for each
  flat source, as \<^verbatim>\<open>set_up_connection_table\<close> leaves it for every hub. Then
  \<open>permute_rows\<close> raises the layout error exactly when under no ordering of the units every
  column of the table has its ones in one contiguous run; it raises no other error; and when it
  returns, the hub holds the table and the sources in an ordering of the units under which
  every column is contiguous. For the pattern of three producers and three consumers the error
  is raised.
\<close>

theorem permute_rows_complete:
  "(connection_table h = Some t \<and> wf_table t \<and> zero_one t \<and>
    length (rows t) = length (flatten (sources h)) \<longrightarrow>
     ((permute_rows h = Inl NetworkValidationError) =
        (\<not> (\<exists>p. mset p = mset (convert_to_nested_indices (sources h)) \<and>
               columns_contiguous (select_rows t (flatten p))))) \<and>
     (\<forall>e. permute_rows h = Inl e \<longrightarrow> e = NetworkValidationError) \<and>
     (\<forall>h'. permute_rows h = Inr h' \<longrightarrow>
        (\<exists>p. mset p = mset (convert_to_nested_indices (sources h)) \<and>
             h' = h\<lparr>connection_table := Some (select_rows t (flatten p)),
                    sources := map (\<lambda>i. Single (flatten (sources h) ! i)) (flatten p)\<rparr> \<and>
             columns_contiguous (select_rows t (flatten p))))) \<and>
   (\<forall>h1. set_up_connection_table h connections = Inr h1 \<longrightarrow>
      (\<exists>t1. connection_table h1 = Some t1 \<and> wf_table t1 \<and> zero_one t1 \<and>
            length (rows t1) = length (flatten (sources h1)))) \<and>
   hub_setup abc_hub abc_connections = Inl NetworkValidationError"
proof (intro conjI impI)
  let ?ok = "\<lambda>p. can_be_connected_with_single_buffer (select_rows t (flatten p))"
  let ?U = "convert_to_nested_indices (sources h)"
  assume hyp: "connection_table h = Some t \<and> wf_table t \<and> zero_one t \<and>
    length (rows t) = length (flatten (sources h))"
  then have ct: "connection_table h = Some t" and wf: "wf_table t" and zo: "zero_one t"
    and len: "length (rows t) = length (flatten (sources h))" by simp_all
  note pf = permute_rows_find[OF ct len]
  have ok: "?ok p = columns_contiguous (select_rows t (flatten p))" if "mset p = mset ?U" for p
    using ordering_check[OF wf zo len that] .
  show "(permute_rows h = Inl NetworkValidationError) =
        (\<not> (\<exists>p. mset p = mset ?U \<and> columns_contiguous (select_rows t (flatten p))))"
  proof (cases "find ?ok (permutations ?U)")
    case None
    then have "permute_rows h = Inl NetworkValidationError" using pf by simp
    moreover from None have "\<forall>p. mset p = mset ?U \<longrightarrow> \<not> ?ok p"
      by (auto simp: find_None_iff permutations_set)
    then have "\<not> (\<exists>p. mset p = mset ?U \<and> columns_contiguous (select_rows t (flatten p)))"
      using ok by blast
    ultimately show ?thesis by simp
  next
    case (Some p)
    then have "?ok p" "p \<in> set (permutations ?U)"
      by (auto simp: find_Some_iff)
    then have "mset p = mset ?U \<and> columns_contiguous (select_rows t (flatten p))"
      using ok by (simp add: permutations_set)
    then have "\<exists>p. mset p = mset ?U \<and> columns_contiguous (select_rows t (flatten p))" ..
    moreover from Some have "permute_rows h \<noteq> Inl NetworkValidationError" using pf by simp
    ultimately show ?thesis by simp
  qed
  show "\<forall>e. permute_rows h = Inl e \<longrightarrow> e = NetworkValidationError"
    using pf by (auto split: option.splits)
  show "\<forall>h'. permute_rows h = Inr h' \<longrightarrow>
        (\<exists>p. mset p = mset ?U \<and>
             h' = h\<lparr>connection_table := Some (select_rows t (flatten p)),
                    sources := map (\<lambda>i. Single (flatten (sources h) ! i)) (flatten p)\<rparr> \<and>
             columns_contiguous (select_rows t (flatten p)))"
  proof (intro allI impI)
    fix h' assume r: "permute_rows h = Inr h'"
    with pf obtain p where f: "find ?ok (permutations ?U) = Some p"
      and h': "h' = h\<lparr>connection_table := Some (select_rows t (flatten p)),
                    sources := map (\<lambda>i. Single (flatten (sources h) ! i)) (flatten p)\<rparr>"
      by (auto split: option.splits)
    from f have "?ok p" "p \<in> set (permutations ?U)" by (auto simp: find_Some_iff)
    then have "mset p = mset ?U" "columns_contiguous (select_rows t (flatten p))"
      using ok by (simp_all add: permutations_set)
    with h' show "\<exists>p. mset p = mset ?U \<and>
             h' = h\<lparr>connection_table := Some (select_rows t (flatten p)),
                    sources := map (\<lambda>i. Single (flatten (sources h) ! i)) (flatten p)\<rparr> \<and>
             columns_contiguous (select_rows t (flatten p))"
      by (intro exI[of _ p]) simp
  qed
next
  show "\<forall>h1. set_up_connection_table h connections = Inr h1 \<longrightarrow>
      (\<exists>t1. connection_table h1 = Some t1 \<and> wf_table t1 \<and> zero_one t1 \<and>
            length (rows t1) = length (flatten (sources h1)))"
  proof (intro allI impI)
    fix h1 assume "set_up_connection_table h connections = Inr h1"
    from set_up_connection_table_Inr[OF this] show
      "\<exists>t1. connection_table h1 = Some t1 \<and> wf_table t1 \<and> zero_one t1 \<and>
            length (rows t1) = length (flatten (sources h1))" by auto
  qed
next
  show "hub_setup abc_hub abc_connections = Inl NetworkValidationError" by (rule abc_unsat)
qed

theorem permute_rows_complete_witness:
  "connection_table abc_filled = Some abc_table \<and> wf_table abc_table \<and> zero_one abc_table \<and>
   length (rows abc_table) = length (flatten (sources abc_filled)) \<and>
   permute_rows abc_filled = Inl NetworkValidationError \<and>
   \<not> (\<exists>p. mset p = mset (convert_to_nested_indices (sources abc_filled)) \<and>
          columns_contiguous (select_rows abc_table (flatten p))) \<and>
   connection_table gap_hub = Some gap_table \<and> wf_table gap_table \<and> zero_one gap_table \<and>
   length (rows gap_table) = length (flatten (sources gap_hub)) \<and>
   permute_rows gap_hub = Inr gap_solved \<and>
   \<not> columns_contiguous gap_table \<and>
   columns_contiguous \<lparr>ncols = 1, rows = [[1], [1], [0]]\<rparr>"
proof -
  have a: "connection_table abc_filled = Some abc_table" "wf_table abc_table" "zero_one abc_table"
    "length (rows abc_table) = length (flatten (sources abc_filled))"
    by (simp_all add: abc_filled_def abc_hub_def Hub_def abc_table_def wf_table_def zero_one_def)
  have err: "permute_rows abc_filled = Inl NetworkValidationError"
    by code_simp
  from permute_rows_complete[of abc_filled abc_table] a err
  have none: "\<not> (\<exists>p. mset p = mset (convert_to_nested_indices (sources abc_filled)) \<and>
          columns_contiguous (select_rows abc_table (flatten p)))" by blast
  have g: "connection_table gap_hub = Some gap_table" "wf_table gap_table" "zero_one gap_table"
    "length (rows gap_table) = length (flatten (sources gap_hub))"
    by (simp_all add: gap_hub_def Hub_def gap_table_def wf_table_def zero_one_def)
  have ok: "permute_rows gap_hub = Inr gap_solved"
    by code_simp
  from permute_rows_complete[of gap_hub gap_table] g ok
  obtain p where eq: "gap_solved = gap_hub\<lparr>connection_table := Some (select_rows gap_table (flatten p)),
                    sources := map (\<lambda>i. Single (flatten (sources gap_hub) ! i)) (flatten p)\<rparr>"
    and c: "columns_contiguous (select_rows gap_table (flatten p))" by blast
  have "connection_table gap_solved = Some (select_rows gap_table (flatten p))"
    by (subst eq) simp
  then have "select_rows gap_table (flatten p) = \<lparr>ncols = 1, rows = [[1], [1], [0]]\<rparr>"
    by (simp add: gap_solved_def)
  with c have c': "columns_contiguous \<lparr>ncols = 1, rows = [[1], [1], [0]]\<rparr>" by simp
  have n: "\<not> columns_contiguous gap_table" by code_simp
  from a err none g ok n c' show ?thesis by simp
qed

subsection \<open>Hubs returned by \<^verbatim>\<open>Hub.create\<close>\<close>

lemma hub_setup_Inr:
  assumes "hub_setup h0 connections = Inr h"
  shows "\<exists>T p. fill_table (sources h0) (flatten (sources h0)) (sinks h0) connections
                 (np_zeros (length (flatten (sources h0))) (length (sinks h0))) = Inr T \<and>
               mset p = mset (convert_to_nested_indices (sources h0)) \<and>
               can_be_connected_with_single_buffer (select_rows T (flatten p)) \<and>
               h = h0\<lparr>connection_table := Some (select_rows T (flatten p)),
                      sources := map (\<lambda>i. Single (flatten (sources h0) ! i)) (flatten p)\<rparr>"
proof -
  from assms obtain h1 where h1: "set_up_connection_table h0 connections = Inr h1"
    and pr: "permute_rows h1 = Inr h" by (auto simp: hub_setup_def ebind_Inr)
  from set_up_connection_table_Inr[OF h1] obtain T where
    e: "h1 = h0\<lparr>connection_table := Some T\<rparr>"
    and T: "fill_table (sources h0) (flatten (sources h0)) (sinks h0) connections
               (np_zeros (length (flatten (sources h0))) (length (sinks h0))) = Inr T"
    and len: "length (rows T) = length (flatten (sources h0))" by blast
  let ?ok = "\<lambda>p. can_be_connected_with_single_buffer (select_rows T (flatten p))"
  have ct: "connection_table h1 = Some T" and so: "sources h1 = sources h0" by (simp_all add: e)
  from len so have "length (rows T) = length (flatten (sources h1))" by simp
  from permute_rows_find[OF ct this] pr so
  obtain p where f: "find ?ok (permutations (convert_to_nested_indices (sources h0))) = Some p"
    and h: "h = h1\<lparr>connection_table := Some (select_rows T (flatten p)),
                    sources := map (\<lambda>i. Single (flatten (sources h0) ! i)) (flatten p)\<rparr>"
    by (auto split: option.splits)
  from f have "?ok p" "p \<in> set (permutations (convert_to_nested_indices (sources h0)))"
    by (auto simp: find_Some_iff)
  then have "?ok p" "mset p = mset (convert_to_nested_indices (sources h0))"
    by (simp_all add: permutations_set)
  with T h e show ?thesis by (intro exI[of _ T] exI[of _ p]) simp
qed

lemma sorted_nodes_set:
  assumes "sorted_nodes s = Inr xs" and "finite s"
  shows "set xs = s \<and> distinct xs"
proof (cases "\<forall>n\<in>s. is_Single n")
  case True
  with assms have xs: "xs = map Single (sorted_list_of_set (un_Single ` s))"
    by (simp add: sorted_nodes_def)
  have "Single ` un_Single ` s = s" using True by (force simp: image_iff)
  with xs assms(2) show ?thesis by (simp add: distinct_map inj_on_def)
next
  case False
  with assms have t: "\<forall>n\<in>s. is_Tuple n" and xs: "xs = map Tuple (sorted_list_of_set (un_Tuple ` s))"
    by (auto simp: sorted_nodes_def split: if_splits)
  have "Tuple ` un_Tuple ` s = s" using t by (force simp: image_iff)
  with xs assms(2) show ?thesis by (simp add: distinct_map inj_on_def)
qed

lemma Hub_create_Inr:
  assumes "Hub_create it source_set sink_set layout connections = Inr h"
  shows "\<exists>srcs snks T p.
      sorted_nodes source_set = Inr srcs \<and> sorted_nodes sink_set = Inr snks \<and>
      fill_table srcs (flatten srcs) snks connections
         (np_zeros (length (flatten srcs)) (length snks)) = Inr T \<and>
      mset p = mset (convert_to_nested_indices srcs) \<and>
      connection_table h = Some (select_rows T (flatten p)) \<and>
      can_be_connected_with_single_buffer (select_rows T (flatten p)) \<and>
      sources h = map (\<lambda>i. Single (flatten srcs ! i)) (flatten p) \<and>
      sinks h = snks \<and>
      emap (\<lambda>s. size_of s layout) (sources h) = Inr (sizes h) \<and>
      size_hub h = sum_list (sizes h) \<and>
      flatten (it source_set) \<noteq> []"
proof -
  from assms obtain btypes lo context_size srcs snks h1 szs where
    bt: "emap (\<lambda>s. btype_of s layout) (flatten (it source_set)) = Inr btypes"
    and lo: "list_min btypes = Inr lo"
    and srcs: "sorted_nodes source_set = Inr srcs" and snks: "sorted_nodes sink_set = Inr snks"
    and su: "hub_setup (Hub srcs snks (hd btypes) context_size) connections = Inr h1"
    and szs: "emap (\<lambda>s. size_of s layout) (sources h1) = Inr szs"
    and h: "h = h1\<lparr>sizes := szs, size_hub := sum_list szs\<rparr>"
    by (auto simp: Hub_create_def ebind_Inr split: if_splits)
  from lo have "btypes \<noteq> []" by (auto simp: list_min_def)
  with emap_Inr[OF bt] have ne: "flatten (it source_set) \<noteq> []" by auto
  from hub_setup_Inr[OF su] obtain T p where
    "fill_table srcs (flatten srcs) snks connections
         (np_zeros (length (flatten srcs)) (length snks)) = Inr T"
    "mset p = mset (convert_to_nested_indices srcs)"
    "can_be_connected_with_single_buffer (select_rows T (flatten p))"
    "h1 = (Hub srcs snks (hd btypes) context_size)\<lparr>connection_table := Some (select_rows T (flatten p)),
                      sources := map (\<lambda>i. Single (flatten srcs ! i)) (flatten p)\<rparr>"
    by (auto simp: Hub_def)
  with srcs snks szs h ne show ?thesis
    by (intro exI[of _ srcs] exI[of _ snks] exI[of _ T] exI[of _ p]) (simp add: Hub_def)
qed

subsection \<open>Running sums in 64 bits\<close>

lemma int64_add: "int64 (int64 a + b) = int64 (a + b)"
proof -
  have "int64 a + b + 2 ^ 63 = (a + 2 ^ 63) mod 2 ^ 64 + b" by (simp add: int64_def)
  then have "(int64 a + b + 2 ^ 63) mod 2 ^ 64 = ((a + 2 ^ 63) mod 2 ^ 64 + b) mod 2 ^ 64"
    by (rule arg_cong)
  also have "\<dots> = (a + 2 ^ 63 + b) mod 2 ^ 64" by (rule mod_add_left_eq)
  also have "a + 2 ^ 63 + b = a + b + 2 ^ 63" by simp
  finally show ?thesis unfolding int64_def[of "int64 a + b"] int64_def[of "a + b"] by (rule arg_cong)
qed

lemma int64_id: "0 \<le> x \<Longrightarrow> x < 2 ^ 63 \<Longrightarrow> int64 x = x"
  by (simp add: int64_def)

lemma cumsum_from_nth:
  "length (cumsum_from acc xs) = length xs \<and>
   (\<forall>k<length xs. cumsum_from acc xs ! k = int64 (acc + sum_list (take (Suc k) xs)))"
proof (induction xs arbitrary: acc)
  case Nil then show ?case by simp
next
  case (Cons x xs)
  show ?case
  proof (intro conjI allI impI)
    show "length (cumsum_from acc (x # xs)) = length (x # xs)" using Cons by simp
    fix k assume "k < length (x # xs)"
    show "cumsum_from acc (x # xs) ! k = int64 (acc + sum_list (take (Suc k) (x # xs)))"
    proof (cases k)
      case 0 then show ?thesis by simp
    next
      case (Suc k')
      with \<open>k < length (x # xs)\<close> have "k' < length xs" by simp
      with Cons[of "int64 (acc + x)"] Suc show ?thesis
        by (simp add: int64_add add.assoc)
    qed
  qed
qed

lemma cumsum_length: "length (cumsum (0 # zs)) = Suc (length zs)"
  using cumsum_from_nth[of 0 "0 # zs"] by (simp add: cumsum_def)

lemma cumsum_nth_wrapped:
  "k \<le> length zs \<Longrightarrow> cumsum (0 # zs) ! k = int64 (sum_list (take k zs))"
  using cumsum_from_nth[of 0 "0 # zs"] by (simp add: cumsum_def)

lemma sum_take_mono:
  fixes zs :: "int list"
  assumes "\<forall>z\<in>set zs. 0 \<le> z" and "i \<le> j"
  shows "sum_list (take i zs) \<le> sum_list (take j zs)"
proof -
  have "take j zs = take i zs @ take (j - i) (drop i zs)"
    using assms(2) by (metis le_add_diff_inverse take_add)
  moreover have "0 \<le> sum_list (take (j - i) (drop i zs))"
    using assms(1) by (intro sum_list_nonneg) (auto dest!: in_set_takeD in_set_dropD)
  ultimately show ?thesis by simp
qed

lemma cumsum_nth:
  assumes "\<forall>z\<in>set zs. 0 \<le> z" and "sum_list zs < 2 ^ 63" and "k \<le> length zs"
  shows "cumsum (0 # zs) ! k = sum_list (take k zs)"
proof -
  have "0 \<le> sum_list (take k zs)" using sum_take_mono[OF assms(1), of 0 k] by simp
  moreover have "sum_list (take k zs) \<le> sum_list zs"
    using sum_take_mono[OF assms(1), of k "length zs"] assms(3) by simp
  ultimately show ?thesis
    using cumsum_nth_wrapped[OF assms(3)] assms(2) by (simp add: int64_id)
qed

subsection \<open>Slices\<close>

lemma sum_take_Suc: "i < length zs \<Longrightarrow> sum_list (take (Suc i) zs) = sum_list (take i zs) + zs ! i"
  for zs :: "int list"
  by (simp add: take_Suc_conv_app_nth)

lemma source_indices_length:
  "length (sizes h) = length (sources h) \<Longrightarrow> length (source_indices h) = length (sources h)"
  by (simp add: source_indices_def Let_def cumsum_length)

lemma source_indices_nth:
  assumes "length (sizes h) = length (sources h)" and "i < length (sources h)"
    and "\<forall>z\<in>set (sizes h). 0 \<le> z" and "sum_list (sizes h) < 2 ^ 63"
  shows "source_indices h ! i =
         (sources h ! i, sum_list (take i (sizes h)), sum_list (take i (sizes h)) + sizes h ! i)"
proof -
  let ?idxs = "cumsum (0 # sizes h)"
  have len: "length ?idxs = Suc (length (sources h))" using assms(1) by (simp add: cumsum_length)
  have "tl ?idxs ! i = ?idxs ! Suc i" using len assms(2) by (simp add: nth_tl)
  moreover have "?idxs ! i = sum_list (take i (sizes h))"
    using cumsum_nth[OF assms(3,4), of i] assms(1,2) by simp
  moreover have "?idxs ! Suc i = sum_list (take i (sizes h)) + sizes h ! i"
    using cumsum_nth[OF assms(3,4), of "Suc i"] assms(1,2) sum_take_Suc[of i "sizes h"] by simp
  ultimately show ?thesis
    using len assms(1,2) by (simp add: source_indices_def Let_def)
qed

lemma tiling_exists:
  fixes zs :: "int list"
  assumes "0 \<le> x" and "x < sum_list zs"
  shows "\<exists>i<length zs. sum_list (take i zs) \<le> x \<and> x < sum_list (take (Suc i) zs)"
  using assms
proof (induction zs rule: rev_induct)
  case Nil then show ?case by simp
next
  case (snoc z zs)
  show ?case
  proof (cases "x < sum_list zs")
    case True
    from snoc.IH[OF snoc.prems(1) True] obtain i where "i < length zs"
      "sum_list (take i zs) \<le> x" "x < sum_list (take (Suc i) zs)" by blast
    then show ?thesis by (intro exI[of _ i]) (simp add: take_Suc_conv_app_nth nth_append)
  next
    case False
    with snoc.prems show ?thesis by (intro exI[of _ "length zs"]) simp
  qed
qed

lemma tiling:
  fixes zs :: "int list"
  assumes nn: "\<forall>z\<in>set zs. 0 \<le> z"
  shows "(0 \<le> x \<and> x < sum_list zs) =
         (\<exists>!i. i < length zs \<and> sum_list (take i zs) \<le> x \<and> x < sum_list (take i zs) + zs ! i)"
proof
  assume x: "0 \<le> x \<and> x < sum_list zs"
  then obtain i where i: "i < length zs" "sum_list (take i zs) \<le> x"
    "x < sum_list (take (Suc i) zs)" using tiling_exists by blast
  show "\<exists>!i. i < length zs \<and> sum_list (take i zs) \<le> x \<and> x < sum_list (take i zs) + zs ! i"
  proof (intro ex1I[of _ i] conjI)
    show "i < length zs" "sum_list (take i zs) \<le> x" by fact+
    show "x < sum_list (take i zs) + zs ! i" using i sum_take_Suc by simp
  next
    fix j assume j: "j < length zs \<and> sum_list (take j zs) \<le> x \<and> x < sum_list (take j zs) + zs ! j"
    then have j': "x < sum_list (take (Suc j) zs)" using sum_take_Suc by simp
    show "j = i"
    proof (rule ccontr)
      assume "j \<noteq> i"
      then consider "Suc j \<le> i" | "Suc i \<le> j" by linarith
      then show False
      proof cases
        case 1
        from sum_take_mono[OF nn 1] j' i(2) show False by simp
      next
        case 2
        from sum_take_mono[OF nn 2] j i(3) show False by simp
      qed
    qed
  qed
next
  assume "\<exists>!i. i < length zs \<and> sum_list (take i zs) \<le> x \<and> x < sum_list (take i zs) + zs ! i"
  then obtain i where i: "i < length zs" "sum_list (take i zs) \<le> x"
    "x < sum_list (take i zs) + zs ! i" by blast
  have "0 \<le> sum_list (take i zs)" using sum_take_mono[OF nn, of 0 i] by simp
  moreover have "sum_list (take (Suc i) zs) \<le> sum_list zs"
    using sum_take_mono[OF nn, of "Suc i" "length zs"] i(1) by simp
  ultimately show "0 \<le> x \<and> x < sum_list zs" using i sum_take_Suc[OF i(1)] by simp
qed

lemma argmax_from_range:
  "argmax_from b bv i xs = b \<or> (i \<le> argmax_from b bv i xs \<and> argmax_from b bv i xs < i + length xs)"
proof (induction xs arbitrary: b bv i)
  case Nil then show ?case by simp
next
  case (Cons x xs)
  show ?case
  proof (cases "bv < x")
    case True
    with Cons[of i x "Suc i"] show ?thesis by auto
  next
    case False
    with Cons[of b bv "Suc i"] show ?thesis by auto
  qed
qed

lemma argmax_Inr: "xs \<noteq> [] \<Longrightarrow> \<exists>k<length xs. argmax xs = Inr k"
proof (cases xs)
  case Nil then show "xs \<noteq> [] \<Longrightarrow> ?thesis" by simp
next
  case (Cons x rest)
  with argmax_from_range[of 0 x 1 rest] show ?thesis by (auto simp: argmax_def)
qed



lemma sink_index_Inr:
  assumes ct: "connection_table h = Some t"
    and i: "i < ncols t" and ne: "rows t \<noteq> []" and len: "length (sizes h) = length (rows t)"
  shows "\<exists>first last. argmax (column t i) = Inr first \<and> argmax (rev (column t i)) = Inr last \<and>
           first < length (rows t) \<and> last < length (rows t) \<and>
           sink_index h i name =
             Inr (name, cumsum (0 # sizes h) ! first,
                        cumsum (0 # sizes h) ! (length (rows t) - last))"
proof -
  let ?col = "column t i"
  let ?n = "length (rows t)"
  have col: "?col \<noteq> []" "length ?col = ?n" using ne by (simp_all add: column_def)
  from argmax_Inr[OF col(1)] col(2) obtain first where f: "first < ?n" "argmax ?col = Inr first"
    by auto
  from argmax_Inr[of "rev ?col"] col obtain last where l: "last < ?n" "argmax (rev ?col) = Inr last"
    by auto
  have a1: "at_index (cumsum (0 # sizes h)) first = Inr (cumsum (0 # sizes h) ! first)"
    using f(1) len by (simp add: at_index_def cumsum_length)
  have a2: "at_index (cumsum (0 # sizes h)) (?n - last) = Inr (cumsum (0 # sizes h) ! (?n - last))"
    using len by (simp add: at_index_def cumsum_length)
  have "sink_index h i name =
          Inr (name, cumsum (0 # sizes h) ! first, cumsum (0 # sizes h) ! (?n - last))"
    using ct i f(2) l(2) a1 a2
    by (simp add: sink_index_def Let_def column_of_def shape0_def ebind_def)
  with f l show ?thesis by blast
qed


lemma sink_indices_Inr:
  assumes "connection_table h = Some t" and "ncols t = length (sinks h)"
    and "rows t \<noteq> []" and "length (sizes h) = length (rows t)"
  shows "\<exists>snk. sink_indices h = Inr snk"
  unfolding sink_indices_def
proof (rule emap_success, clarify)
  fix i name assume "(i, name) \<in> set (zip [0..<length (sinks h)] (sinks h))"
  then have "i < ncols t" using assms(2) by (auto dest!: set_zip_leftD)
  from sink_index_Inr[OF assms(1) this assms(3,4), of name]
  show "\<exists>y. sink_index h i name = Inr y" by blast
qed

lemma flatten_nonempty: "(flatten xs \<noteq> []) = (\<exists>u\<in>set xs. elems u \<noteq> [])"
  by (induction xs rule: flatten.induct) auto

lemma created_hub_shape:
  assumes c: "Hub_create it source_set sink_set layout connections = Inr h"
    and it: "set (it source_set) = source_set"
  shows "\<exists>t. connection_table h = Some t \<and> wf_table t \<and> zero_one t \<and>
         ncols t = length (sinks h) \<and> length (rows t) = length (sources h) \<and>
         length (sizes h) = length (sources h) \<and> sources h \<noteq> [] \<and>
         size_hub h = sum_list (sizes h)"
proof -
  from Hub_create_Inr[OF c] obtain srcs snks T p where
    srcs: "sorted_nodes source_set = Inr srcs"
    and T: "fill_table srcs (flatten srcs) snks connections
         (np_zeros (length (flatten srcs)) (length snks)) = Inr T"
    and p: "mset p = mset (convert_to_nested_indices srcs)"
    and ct: "connection_table h = Some (select_rows T (flatten p))"
    and so: "sources h = map (\<lambda>i. Single (flatten srcs ! i)) (flatten p)"
    and sk: "sinks h = snks"
    and sz: "emap (\<lambda>s. size_of s layout) (sources h) = Inr (sizes h)"
    and sm: "size_hub h = sum_list (sizes h)"
    and ne: "flatten (it source_set) \<noteq> []" by blast
  note Tz = fill_table_zeros[OF T]
  have rng: "set (flatten p) = {0..<length (flatten srcs)}"
    using unit_ordering_in_range[OF p] .
  then have inr: "\<forall>i\<in>set (flatten p). i < length (rows T)" using Tz(2) by simp
  have "finite source_set" using it by (metis List.finite_set)
  with sorted_nodes_set[OF srcs] have "set srcs = source_set" by simp
  with ne it have "flatten srcs \<noteq> []" by (simp add: flatten_nonempty)
  then have "set (flatten p) \<noteq> {}" using rng by simp
  then have pne: "flatten p \<noteq> []" by auto
  from emap_Inr[OF sz] have "length (sizes h) = length (sources h)"
    by (simp add: list_all2_lengthD)
  with select_rows_wf[OF Tz(3) inr] select_rows_zero_one[OF Tz(4) inr] Tz(1) pne sm ct
  show ?thesis by (simp add: so sk select_rows_shape)
qed

lemma created_hub_get_indices:
  assumes c: "Hub_create it source_set sink_set layout connections = Inr h"
    and it: "set (it source_set) = source_set"
  shows "\<exists>snk. sink_indices h = Inr snk \<and> get_indices h = Inr (source_indices h @ snk)"
proof -
  from created_hub_shape[OF c it] obtain t where t: "connection_table h = Some t"
    "ncols t = length (sinks h)" "length (rows t) = length (sources h)"
    "length (sizes h) = length (sources h)" "sources h \<noteq> []"
    by blast
  from t(3,5) have ne: "rows t \<noteq> []" by auto
  from t(3,4) have len: "length (sizes h) = length (rows t)" by simp
  from sink_indices_Inr[OF t(1,2) ne len] show ?thesis
    by (auto simp: get_indices_def ebind_def)
qed

lemma abc_solved_created:
  "Hub_create abc_it abc_set xy_set abc_layout xy_connections = Inr abc_solved"
  by code_simp

lemma big_solved_created:
  "Hub_create big_it big_set {} big_layout [] = Inr big_solved"
  by code_simp

lemma big_indices:
  "get_indices big_solved = Inr [(Single ''A'', 0, 2 ^ 62), (Single ''B'', 2 ^ 62, - (2 ^ 63))]"
  by code_simp

text \<open>
  C2 (as amended). For a hub returned by \<^verbatim>\<open>Hub.create\<close>, \<^verbatim>\<open>get_indices\<close> yields
  first one slice for each source, in order; the sizes are the element counts of the sources and
  the size of the hub is their sum. When no element count is negative and their sum is below
  \<open>2^63\<close>, source \<open>i\<close> gets the range from the sum of the sizes before it to that sum
  plus its own size, every position of \<open>[0, size)\<close> lies in exactly one source slice and
  no slice holds any other position.
\<close>

theorem source_slices_tile:
  assumes "Hub_create it source_set sink_set layout connections = Inr h"
    and "set (it source_set) = source_set"
  shows "(\<exists>snk. get_indices h = Inr (source_indices h @ snk)) \<and>
         length (source_indices h) = length (sources h) \<and>
         emap (\<lambda>s. size_of s layout) (sources h) = Inr (sizes h) \<and>
         size_hub h = sum_list (sizes h) \<and>
         (sizes_fit (sizes h) \<longrightarrow>
            (\<forall>i<length (sources h). source_indices h ! i =
               (sources h ! i, sum_list (take i (sizes h)),
                sum_list (take i (sizes h)) + sizes h ! i)) \<and>
            (\<forall>x. (0 \<le> x \<and> x < size_hub h) =
                 (\<exists>!i. i < length (sources h) \<and> fst (snd (source_indices h ! i)) \<le> x \<and>
                        x < snd (snd (source_indices h ! i)))))"
proof -
  from created_hub_shape[OF assms] have len: "length (sizes h) = length (sources h)"
    and sm: "size_hub h = sum_list (sizes h)" by auto
  from Hub_create_Inr[OF assms(1)] have sz: "emap (\<lambda>s. size_of s layout) (sources h) = Inr (sizes h)"
    by blast
  from created_hub_get_indices[OF assms]
  have gi: "\<exists>snk. get_indices h = Inr (source_indices h @ snk)" by blast
  have sl: "length (source_indices h) = length (sources h)"
    using len by (rule source_indices_length)
  have fit: "(\<forall>i<length (sources h). source_indices h ! i =
               (sources h ! i, sum_list (take i (sizes h)),
                sum_list (take i (sizes h)) + sizes h ! i)) \<and>
            (\<forall>x. (0 \<le> x \<and> x < size_hub h) =
                 (\<exists>!i. i < length (sources h) \<and> fst (snd (source_indices h ! i)) \<le> x \<and>
                        x < snd (snd (source_indices h ! i))))"
    if f: "sizes_fit (sizes h)"
  proof -
    from f have nn: "\<forall>z\<in>set (sizes h). 0 \<le> z" and b: "sum_list (sizes h) < 2 ^ 63"
      by (simp_all add: sizes_fit_def list_all_iff)
    have nth: "source_indices h ! i =
            (sources h ! i, sum_list (take i (sizes h)), sum_list (take i (sizes h)) + sizes h ! i)"
      if "i < length (sources h)" for i using source_indices_nth[OF len that nn b] .
    have tile: "(0 \<le> x \<and> x < size_hub h) =
                 (\<exists>!i. i < length (sources h) \<and> fst (snd (source_indices h ! i)) \<le> x \<and>
                        x < snd (snd (source_indices h ! i)))" for x
    proof -
      have eq: "(i < length (sources h) \<and> fst (snd (source_indices h ! i)) \<le> x \<and>
                        x < snd (snd (source_indices h ! i))) =
          (i < length (sizes h) \<and> sum_list (take i (sizes h)) \<le> x \<and>
                        x < sum_list (take i (sizes h)) + sizes h ! i)" for i
        using nth[of i] len by auto
      show ?thesis unfolding eq using tiling[OF nn, of x] sm by simp
    qed
    from nth tile show ?thesis by blast
  qed
  from gi sl sz sm fit show ?thesis by blast
qed

theorem source_slices_tile_witness:
  "Hub_create abc_it abc_set xy_set abc_layout xy_connections = Inr abc_solved \<and>
   set (abc_it abc_set) = abc_set \<and> sizes_fit (sizes abc_solved) \<and>
   source_indices abc_solved ! 1 = (Single ''B'', 2, 5) \<and>
   size_hub abc_solved = 9 \<and>
   (\<exists>snk. get_indices abc_solved = Inr (source_indices abc_solved @ snk))"
proof -
  have it: "set (abc_it abc_set) = abc_set" by (auto simp: abc_it_def abc_set_def)
  have sz: "sizes abc_solved = [2, 3, 4]" "sources abc_solved = [Single ''A'', Single ''B'', Single ''C'']"
    by (simp_all add: abc_solved_def)
  have fit: "sizes_fit (sizes abc_solved)" by (simp add: sz sizes_fit_def)
  from source_slices_tile[OF abc_solved_created it] fit
  have "source_indices abc_solved ! 1 = (sources abc_solved ! 1, sum_list (take 1 (sizes abc_solved)),
          sum_list (take 1 (sizes abc_solved)) + sizes abc_solved ! 1)"
    and "size_hub abc_solved = sum_list (sizes abc_solved)"
    and "\<exists>snk. get_indices abc_solved = Inr (source_indices abc_solved @ snk)"
    by (simp_all add: sz)
  with abc_solved_created it fit show ?thesis by (simp add: sz)
qed

text \<open>
  C2 as stated fails where the running sum leaves 64 bits: for two sources of \<open>2^62\<close>
  elements the second slice ends at \<open>- 2^63\<close>, while the size of the hub is \<open>2^63\<close>.
\<close>

theorem source_slices_wrap_counterexample:
  "Hub_create big_it big_set {} big_layout [] = Inr big_solved \<and>
   set (big_it big_set) = big_set \<and>
   size_hub big_solved = 2 ^ 63 \<and>
   get_indices big_solved =
     Inr [(Single ''A'', 0, 2 ^ 62), (Single ''B'', 2 ^ 62, - (2 ^ 63))] \<and>
   \<not> (source_indices big_solved ! 1 =
        (sources big_solved ! 1, sum_list (take 1 (sizes big_solved)),
         sum_list (take 1 (sizes big_solved)) + sizes big_solved ! 1))"
proof -
  have it: "set (big_it big_set) = big_set" by (auto simp: big_it_def big_set_def)
  have sz: "size_hub big_solved = 2 ^ 63" by (simp add: big_solved_def)
  have n: "\<not> (source_indices big_solved ! 1 =
        (sources big_solved ! 1, sum_list (take 1 (sizes big_solved)),
         sum_list (take 1 (sizes big_solved)) + sizes big_solved ! 1))"
    by code_simp
  from big_solved_created it sz big_indices n show ?thesis by simp
qed


text \<open>
  C5 (the code departs from the claim). For a connection whose producer is a member of a
  forced-order tuple, \<^verbatim>\<open>set_up_connection_table\<close> leaves the entry at 0: the test
  \<^verbatim>\<open>start in self.sources\<close> looks for the path among the sources before they are
  flattened, where only the tuple stands. Here \<^verbatim>\<open>(L.a, X)\<close> is a declared connection,
  and the entry of row \<^verbatim>\<open>L.a\<close>, column X is 0.
\<close>

theorem forced_member_entry_unset: "set_up_connection_table fo_hub fo_connections =
   Inr (fo_hub\<lparr>connection_table := Some \<lparr>ncols = 1, rows = [[0], [0]]\<rparr>\<rparr>)"
  by code_simp

text \<open>
  C3 (the code departs from the claim). In the hub that \<^verbatim>\<open>Hub.create\<close> returns for the
  same input, the sink X reads \<^verbatim>\<open>L.a\<close> only, whose slice is \<open>(0, 2)\<close>, and
  \<^verbatim>\<open>get_indices\<close> gives X the slice \<open>(0, 5)\<close>, which also covers \<^verbatim>\<open>L.b\<close>.
\<close>

theorem forced_member_sink_slice: "get_indices fo_solved =
   Inr [(Single ''L.a'', 0, 2), (Single ''L.b'', 2, 5), (Single ''X'', 0, 5)]"
  by code_simp








subsection \<open>Forward closure\<close>

lemma targets_of_iff: "b \<in> targets_of cs s = (\<exists>a\<in>s. (a, b) \<in> set cs)"
proof -
  have "targets_of cs s = snd ` {(a, b). (a, b) \<in> set cs \<and> a \<in> s}"
    by (auto simp: targets_of_def)
  then show ?thesis by force
qed

lemma starts_of_iff: "a \<in> starts_of cs k = (\<exists>b\<in>k. (a, b) \<in> set cs)"
proof -
  have "starts_of cs k = fst ` {(a, b). (a, b) \<in> set cs \<and> b \<in> k}"
    by (auto simp: starts_of_def)
  then show ?thesis by force
qed

lemma targets_of_mono: "s \<subseteq> s' \<Longrightarrow> targets_of cs s \<subseteq> targets_of cs s'"
  unfolding subset_iff targets_of_iff by blast

lemma starts_of_mono: "k \<subseteq> k' \<Longrightarrow> starts_of cs k \<subseteq> starts_of cs k'"
  unfolding subset_iff starts_of_iff by blast

lemma finite_targets_of: "finite (targets_of cs s)" by (simp add: targets_of_def)
lemma finite_starts_of: "finite (starts_of cs k)" by (simp add: starts_of_def)

lemma targets_of_bound: "targets_of cs s \<subseteq> snd ` set cs" by (auto simp: targets_of_def)
lemma starts_of_bound: "starts_of cs k \<subseteq> fst ` set cs" by (auto simp: starts_of_def)


lemma closure_inv_init: "closure_inv cs n {n} (targets_of cs {n})"
proof (cases "targets_of cs {n} = {}")
  case True then show ?thesis by (simp add: closure_inv_def)
next
  case False
  have "{n} \<subseteq> starts_of cs (targets_of cs {n})"
    using False by (auto simp: starts_of_iff targets_of_iff)
  moreover have "targets_of cs {n} \<subseteq> {b. reach_sink cs n b}"
    by (auto simp: targets_of_iff intro: reach_source_reach_sink.intros)
  ultimately show ?thesis using False targets_of_bound[of cs "{n}"]
    by (auto simp: closure_inv_def intro: reach_source_reach_sink.intros)
qed

lemma closure_inv_grows:
  assumes "closure_inv cs n s k" and "targets_of cs {n} \<noteq> {}"
  shows "s \<subseteq> starts_of cs k" "k \<subseteq> targets_of cs s" "finite s" "finite k"
proof -
  from assms show a: "s \<subseteq> starts_of cs k" and b: "k \<subseteq> targets_of cs s"
    by (auto simp: closure_inv_def)
  from a show "finite s" using finite_starts_of by (rule finite_subset)
  from b show "finite k" using finite_targets_of by (rule finite_subset)
qed

lemma closure_inv_step:
  assumes inv: "closure_inv cs n s k"
    and go: "card (starts_of cs k) > card s \<or> card (targets_of cs s) > card k"
  shows "closure_inv cs n (starts_of cs k) (targets_of cs s)"
proof (cases "targets_of cs {n} = {}")
  case True
  with inv have "s = {n}" "k = {}" by (auto simp: closure_inv_def)
  with True go have False by (simp add: starts_of_def)
  then show ?thesis ..
next
  case False
  note g = closure_inv_grows[OF inv False]
  from inv False have n: "n \<in> s" and tk: "targets_of cs {n} \<subseteq> k"
    and rs: "s \<subseteq> {a. reach_source cs n a}" and rk: "k \<subseteq> {b. reach_sink cs n b}"
    by (auto simp: closure_inv_def)
  have 1: "n \<in> starts_of cs k" using g(1) n by auto
  have 2: "targets_of cs {n} \<subseteq> targets_of cs s" using n by (intro targets_of_mono) simp
  have 3: "targets_of cs s \<subseteq> targets_of cs (starts_of cs k)" using g(1) by (rule targets_of_mono)
  have 4: "starts_of cs k \<subseteq> starts_of cs (targets_of cs s)" using g(2) by (rule starts_of_mono)
  have 5: "starts_of cs k \<subseteq> {a. reach_source cs n a}"
    using rk unfolding subset_iff starts_of_iff mem_Collect_eq
    by (blast intro: reach_source_reach_sink.backward)
  have 6: "targets_of cs s \<subseteq> {b. reach_sink cs n b}"
    using rs unfolding subset_iff targets_of_iff mem_Collect_eq
    by (blast intro: reach_source_reach_sink.forward)
  from False 1 2 3 4 5 6 starts_of_bound[of cs k] targets_of_bound[of cs s]
  show ?thesis unfolding closure_inv_def by blast
qed

lemma closure_inv_measure:
  assumes inv: "closure_inv cs n s k"
    and go: "card (starts_of cs k) > card s \<or> card (targets_of cs s) > card k"
  shows "card s + card k < card (starts_of cs k) + card (targets_of cs s)"
    and "card (starts_of cs k) + card (targets_of cs s) \<le> Suc (length cs) + length cs"
proof -
  have ne: "targets_of cs {n} \<noteq> {}"
  proof
    assume e: "targets_of cs {n} = {}"
    with inv have "s = {n}" "k = {}" by (auto simp: closure_inv_def)
    with e go show False by (simp add: starts_of_def)
  qed
  note g = closure_inv_grows[OF inv ne]
  have "card s \<le> card (starts_of cs k)" using g(1) finite_starts_of by (intro card_mono)
  moreover have "card k \<le> card (targets_of cs s)" using g(2) finite_targets_of by (intro card_mono)
  ultimately show "card s + card k < card (starts_of cs k) + card (targets_of cs s)"
    using go by linarith
  have "card (starts_of cs k) \<le> length cs"
    unfolding starts_of_def by (rule order_trans[OF card_length]) simp
  moreover have "card (targets_of cs s) \<le> length cs"
    unfolding targets_of_def by (rule order_trans[OF card_length]) simp
  ultimately show "card (starts_of cs k) + card (targets_of cs s) \<le> Suc (length cs) + length cs"
    by simp
qed

lemma closure_inv_bound:
  assumes "closure_inv cs n s k"
  shows "card s + card k \<le> Suc (length cs) + length cs"
proof (cases "targets_of cs {n} = {}")
  case True
  with assms show ?thesis by (auto simp: closure_inv_def)
next
  case False
  note g = closure_inv_grows[OF assms False]
  have "card s \<le> card (starts_of cs k)" using g(1) finite_starts_of by (intro card_mono)
  moreover have "card (starts_of cs k) \<le> length cs"
    unfolding starts_of_def by (rule order_trans[OF card_length]) simp
  moreover have "card k \<le> card (targets_of cs s)" using g(2) finite_targets_of by (intro card_mono)
  moreover have "card (targets_of cs s) \<le> length cs"
    unfolding targets_of_def by (rule order_trans[OF card_length]) simp
  ultimately show ?thesis by simp
qed

lemma closure_loop_terminates:
  assumes "closure_inv cs n s k"
  shows "\<exists>s' k'. closure_loop cs s k = Some (s', k') \<and> closure_inv cs n s' k' \<and>
           \<not> (card (starts_of cs k') > card s' \<or> card (targets_of cs s') > card k')"
  using assms
proof (induction "Suc (length cs) + length cs - (card s + card k)" arbitrary: s k rule: less_induct)
  case less
  show ?case
  proof (cases "card (starts_of cs k) > card s \<or> card (targets_of cs s) > card k")
    case False
    then have "closure_loop cs s k = Some (s, k)"
      by (subst closure_loop.simps) (simp add: Let_def)
    with less.prems False show ?thesis by blast
  next
    case True
    note m = closure_inv_measure[OF less.prems True]
    have inv': "closure_inv cs n (starts_of cs k) (targets_of cs s)"
      using less.prems True by (rule closure_inv_step)
    have "Suc (length cs) + length cs - (card (starts_of cs k) + card (targets_of cs s))
          < Suc (length cs) + length cs - (card s + card k)"
      using m by linarith
    from less.hyps[OF this inv'] obtain s' k' where
      r: "closure_loop cs (starts_of cs k) (targets_of cs s) = Some (s', k')"
      "closure_inv cs n s' k'"
      "\<not> (card (starts_of cs k') > card s' \<or> card (targets_of cs s') > card k')" by blast
    from True r(1) have "closure_loop cs s k = Some (s', k')"
      by (subst closure_loop.simps) (simp add: Let_def)
    with r show ?thesis by blast
  qed
qed


lemma reach_in_closed:
  assumes n: "n \<in> s" and c: "closed_pair cs s k"
  shows "(reach_source cs n a \<longrightarrow> a \<in> s) \<and> (reach_sink cs n b \<longrightarrow> b \<in> k)"
proof -
  have "(reach_source cs n a \<longrightarrow> a \<in> s)" "(reach_sink cs n b \<longrightarrow> b \<in> k)" for a b
  proof -
    have "(reach_source cs n a \<longrightarrow> a \<in> s) \<and> (reach_sink cs n b \<longrightarrow> b \<in> k)"
    proof (intro conjI impI)
      show "reach_source cs n a \<Longrightarrow> a \<in> s" and "reach_sink cs n b \<Longrightarrow> b \<in> k"
      proof (induction rule: reach_source_reach_sink.inducts)
        case seed show ?case by (rule n)
      next
        case (forward a b) with c show ?case by (auto simp: closed_pair_def)
      next
        case (backward b a) with c show ?case by (auto simp: closed_pair_def)
      qed
    qed
    then show "(reach_source cs n a \<longrightarrow> a \<in> s)" "(reach_sink cs n b \<longrightarrow> b \<in> k)" by simp_all
  qed
  then show ?thesis by simp
qed

lemma closure_inv_exit:
  assumes inv: "closure_inv cs n s k"
    and stop: "\<not> (card (starts_of cs k) > card s \<or> card (targets_of cs s) > card k)"
  shows "n \<in> s \<and> closed_pair cs s k \<and> s \<subseteq> {a. reach_source cs n a} \<and>
         k \<subseteq> {b. reach_sink cs n b}"
proof (cases "targets_of cs {n} = {}")
  case True
  with inv have sk: "s = {n}" "k = {}" by (auto simp: closure_inv_def)
  from True have "\<forall>(a, b)\<in>set cs. a \<noteq> n" by (auto simp: targets_of_iff)
  with sk show ?thesis
    by (auto simp: closed_pair_def intro: reach_source_reach_sink.seed)
next
  case False
  note g = closure_inv_grows[OF inv False]
  have "card (starts_of cs k) \<le> card s" using stop by simp
  with g(1) finite_starts_of[of cs k] have s: "s = starts_of cs k" by (intro card_seteq)
  have "card (targets_of cs s) \<le> card k" using stop by simp
  with g(2) finite_targets_of[of cs s] have k: "k = targets_of cs s" by (intro card_seteq)
  have "closed_pair cs s k"
    unfolding closed_pair_def
  proof (intro ballI, clarify, intro conjI impI)
    fix a b assume ab: "(a, b) \<in> set cs"
    { assume "a \<in> s" with ab have "b \<in> targets_of cs s" by (auto simp: targets_of_iff)
      with k show "b \<in> k" by simp }
    { assume "b \<in> k" with ab have "a \<in> starts_of cs k" by (auto simp: starts_of_iff)
      with s show "a \<in> s" by simp }
  qed
  with inv False show ?thesis by (auto simp: closure_inv_def)
qed

text \<open>
  C6. \<^verbatim>\<open>get_forward_closure\<close> returns for every node and every list of connections;
  the pair it returns holds the node among its sources, is closed under the consumers of its
  sources and the producers of its sinks, is contained in every such pair, and is the connected
  component of the node.
\<close>

theorem get_forward_closure_component:
  "\<exists>s k. get_forward_closure n cs = Some (s, k) \<and> n \<in> s \<and> closed_pair cs s k \<and>
         (\<forall>s' k'. n \<in> s' \<and> closed_pair cs s' k' \<longrightarrow> s \<subseteq> s' \<and> k \<subseteq> k') \<and>
         s = {a. reach_source cs n a} \<and> k = {b. reach_sink cs n b}"
proof -
  from closure_loop_terminates[OF closure_inv_init, of cs n] obtain s k where
    r: "get_forward_closure n cs = Some (s, k)" and inv: "closure_inv cs n s k"
    and stop: "\<not> (card (starts_of cs k) > card s \<or> card (targets_of cs s) > card k)"
    by (auto simp: get_forward_closure_def)
  from closure_inv_exit[OF inv stop] have n: "n \<in> s" and c: "closed_pair cs s k"
    and sub: "s \<subseteq> {a. reach_source cs n a}" "k \<subseteq> {b. reach_sink cs n b}" by simp_all
  from reach_in_closed[OF n c] sub
  have eq: "s = {a. reach_source cs n a}" "k = {b. reach_sink cs n b}" by auto
  have "s \<subseteq> s' \<and> k \<subseteq> k'" if "n \<in> s' \<and> closed_pair cs s' k'" for s' k'
    using reach_in_closed[of n s' cs k'] that unfolding eq by auto
  with r n c eq show ?thesis by blast
qed

theorem get_forward_closure_component_witness:
  "get_forward_closure ''A'' ring = Some ({''A'', ''B''}, {''X'', ''Y''}) \<and>
   reach_source ring ''A'' ''B'' \<and> \<not> reach_source ring ''A'' ''C'' \<and>
   reach_sink ring ''A'' ''Y''"
proof -
  have r: "get_forward_closure ''A'' ring = Some ({''A'', ''B''}, {''X'', ''Y''})"
    by code_simp
  from get_forward_closure_component[of "''A''" ring] obtain s k where
    sk: "get_forward_closure ''A'' ring = Some (s, k)"
    and s: "s = {a. reach_source ring ''A'' a}" and k: "k = {b. reach_sink ring ''A'' b}"
    by blast
  from sk r have s': "s = {''A'', ''B''}" and k': "k = {''X'', ''Y''}" by simp_all
  have ms: "reach_source ring ''A'' x = (x \<in> {''A'', ''B''})" for x
    using s s' by blast
  have mk: "reach_sink ring ''A'' x = (x \<in> {''X'', ''Y''})" for x
    using k k' by blast
  have "reach_source ring ''A'' ''B''" "\<not> reach_source ring ''A'' ''C''"
    "reach_sink ring ''A'' ''Y''" unfolding ms mk by simp_all
  with r show ?thesis by simp
qed

subsection \<open>Forced orders\<close>

lemma overlap_iff:
  "overlap fos = (\<exists>i j. i < length fos \<and> j < length fos \<and> i \<noteq> j \<and>
                        set (fos ! i) \<inter> set (fos ! j) \<noteq> {})"
proof -
  have E: "list_ex P [0..<n] = (\<exists>i<n. P i)" for P n
    unfolding list_ex_iff by (metis atLeastLessThan_iff set_upt zero_le)
  show ?thesis unfolding overlap_def E by blast
qed

lemma get_forced_orders_cases:
  "get_forced_orders ls =
     (if overlap (extracted_orders ls) then Inl AssertionError else Inr (extracted_orders ls))"
  by (simp add: get_forced_orders_def extracted_orders_def Let_def)

text \<open>
  C8. \<^verbatim>\<open>get_forced_orders\<close> raises exactly when two of the extracted forced-order tuples,
  at different positions, share an endpoint path; what it raises is the failed assertion; and
  then \<^verbatim>\<open>create_layout\<close> ends with that error whatever the rest of the registry holds,
  no hub being built. When it returns, it returns the extracted tuples.
\<close>

theorem forced_orders_overlap_error:
  "((\<exists>e. get_forced_orders ls = Inl e) =
      (\<exists>i j. i < length (extracted_orders ls) \<and> j < length (extracted_orders ls) \<and> i \<noteq> j \<and>
             set (extracted_orders ls ! i) \<inter> set (extracted_orders ls ! j) \<noteq> {})) \<and>
   (\<forall>e. get_forced_orders ls = Inl e \<longrightarrow>
        e = AssertionError \<and> (\<forall>it. create_layout it ls = Some (Inl e))) \<and>
   (\<forall>fos. get_forced_orders ls = Inr fos \<longrightarrow> fos = extracted_orders ls)"
proof (intro conjI)
  show "(\<exists>e. get_forced_orders ls = Inl e) =
      (\<exists>i j. i < length (extracted_orders ls) \<and> j < length (extracted_orders ls) \<and> i \<noteq> j \<and>
             set (extracted_orders ls ! i) \<inter> set (extracted_orders ls ! j) \<noteq> {})"
    unfolding overlap_iff[symmetric] by (simp add: get_forced_orders_cases)
  show "\<forall>e. get_forced_orders ls = Inl e \<longrightarrow>
        e = AssertionError \<and> (\<forall>it. create_layout it ls = Some (Inl e))"
    by (auto simp: get_forced_orders_cases create_layout_def split: if_splits)
  show "\<forall>fos. get_forced_orders ls = Inr fos \<longrightarrow> fos = extracted_orders ls"
    by (auto simp: get_forced_orders_cases split: if_splits)
qed

theorem forced_orders_overlap_error_witness:
  "extracted_orders clash = [[''X.internals.parameters.b''], [''X.internals.parameters.b'']] \<and>
   get_forced_orders clash = Inl AssertionError \<and>
   create_layout it0 clash = Some (Inl AssertionError)"
proof -
  have ex: "extracted_orders clash = [[''X.internals.parameters.b''], [''X.internals.parameters.b'']]"
    by code_simp
  have "\<exists>i j. i < length (extracted_orders clash) \<and> j < length (extracted_orders clash) \<and> i \<noteq> j \<and>
             set (extracted_orders clash ! i) \<inter> set (extracted_orders clash ! j) \<noteq> {}"
    unfolding ex by (intro exI[of _ 0] exI[of _ 1]) simp
  with forced_orders_overlap_error[of clash] obtain e where e: "get_forced_orders clash = Inl e"
    by blast
  with forced_orders_overlap_error[of clash]
  have "e = AssertionError" "create_layout it0 clash = Some (Inl e)" by blast+
  with e ex show ?thesis by simp
qed

end
